theory Spec2Isabelle
  imports Main "HOL-Library.Word" "HOL-Library.Sublist"
begin

section \<open>Byte strings and the C character functions\<close>

text \<open>
  A \<open>std::string\<close> is a sequence of bytes: \<^typ>\<open>string\<close>, a list of 8-bit
  \<^typ>\<open>char\<close>. Both programs (\<open>gdelt_dedup.cpp\<close> and \<open>jsonl_dedup.cpp\<close>) never call
  \<open>setlocale\<close>, so \<open>std::isspace\<close> and \<open>std::tolower\<close> act as in the "C" locale:
  the white-space bytes are 0x20 and 0x09 to 0x0D, and only \<open>A\<close> to \<open>Z\<close> change
  under \<open>tolower\<close>. The two files hold the same text for every function modelled
  here, so one model serves both.
\<close>

definition isspace :: "char \<Rightarrow> bool" where
  "isspace ch \<longleftrightarrow> (let n = (of_char ch :: nat) in n = 32 \<or> (9 \<le> n \<and> n \<le> 13))"

definition tolower :: "char \<Rightarrow> char" where
  "tolower ch =
     (let n = (of_char ch :: nat) in if 65 \<le> n \<and> n \<le> 90 then char_of (n + 32) else ch)"

text \<open>
  \<open>std::to_string\<close> on a \<open>std::size_t\<close> (and \<open>operator<<\<close> on one): the decimal
  digits, most significant first, no sign and no padding.
\<close>

definition digit_char :: "nat \<Rightarrow> char" where
  "digit_char d = char_of (48 + d)"

function to_string :: "nat \<Rightarrow> string" where
  "to_string n = (if n < 10 then [digit_char n] else to_string (n div 10) @ [digit_char (n mod 10)])"
  by pat_completeness auto
termination
  by (relation "measure (\<lambda>n. n)") auto

declare to_string.simps [simp del]

section \<open>Normalisation\<close>

text \<open>
  The body of the \<open>for\<close> loop of \<open>normalize_ascii_lower\<close>, on the pair of the
  loop's variables \<open>out\<close> and \<open>in_space\<close>.
\<close>

definition norm_step :: "string \<times> bool \<Rightarrow> char \<Rightarrow> string \<times> bool" where
  "norm_step s ch =
     (case s of (out, in_space) \<Rightarrow>
        if isspace ch then (if \<not> in_space then (out @ [CHR '' ''], True) else (out, in_space))
        else (out @ [tolower ch], False))"

text \<open>\<open>while (!out.empty() && out.front() == c) out.erase(out.begin());\<close>\<close>

fun erase_leading :: "char \<Rightarrow> string \<Rightarrow> string" where
  "erase_leading c [] = []"
| "erase_leading c (x # xs) = (if x = c then erase_leading c xs else x # xs)"

text \<open>\<open>while (!out.empty() && out.back() == c) out.pop_back();\<close>\<close>

function pop_trailing :: "char \<Rightarrow> string \<Rightarrow> string" where
  "pop_trailing c out =
     (if out \<noteq> [] \<and> last out = c then pop_trailing c (butlast out) else out)"
  by pat_completeness auto
termination
  by (relation "measure (\<lambda>(c, out). length out)") auto

declare pop_trailing.simps [simp del]

definition normalize_ascii_lower :: "string \<Rightarrow> string" where
  "normalize_ascii_lower input =
     pop_trailing (CHR '' '')
       (erase_leading (CHR '' '') (fst (foldl norm_step ([], False) input)))"

definition normalize_urlish :: "string \<Rightarrow> string" where
  "normalize_urlish url = pop_trailing (CHR ''/'') (map tolower url)"

section \<open>Records and key derivation\<close>

text \<open>
  A value of \<open>nlohmann::json\<close>. The programs read a value only through
  \<open>find\<close>, \<open>is_string\<close> and \<open>get<std::string>\<close>: they never look at a number,
  so one constructor with an integer stands for all numbers. An object is a list of
  members, looked up by key (the library keeps one member for each key).
\<close>

datatype json =
    JNull
  | JBool bool
  | JNumber int
  | JString string
  | JArray "json list"
  | JObject "(string \<times> json) list"

text \<open>
  \<open>record.find(key)\<close>: the member of an object, and \<open>end()\<close> (here \<open>None\<close>) when the
  key is missing or the value is not an object.
\<close>

fun find_json :: "json \<Rightarrow> string \<Rightarrow> json option" where
  "find_json (JObject members) key = map_of members key"
| "find_json _ key = None"

text \<open>
  The test \<open>it != record.end() && it->is_string()\<close> followed by
  \<open>it->get<std::string>()\<close>.
\<close>

definition string_field :: "json \<Rightarrow> string \<Rightarrow> string option" where
  "string_field record key =
     (case find_json record key of Some (JString s) \<Rightarrow> Some s | _ \<Rightarrow> None)"

text \<open>
  The three local variables of \<open>build_key\<close>: the normalised field when the record
  has it as a string, the empty string otherwise.
\<close>

definition text_norm :: "json \<Rightarrow> string" where
  "text_norm record =
     (case string_field record ''text'' of Some s \<Rightarrow> normalize_ascii_lower s | None \<Rightarrow> [])"

definition title_norm :: "json \<Rightarrow> string" where
  "title_norm record =
     (case string_field record ''title'' of Some s \<Rightarrow> normalize_ascii_lower s | None \<Rightarrow> [])"

definition url_norm :: "json \<Rightarrow> string" where
  "url_norm record =
     (case string_field record ''url'' of Some s \<Rightarrow> normalize_urlish s | None \<Rightarrow> [])"

definition build_key :: "json \<Rightarrow> string" where
  "build_key record =
     (if text_norm record \<noteq> [] then
        (if length (text_norm record) < 80 \<and> url_norm record \<noteq> []
         then text_norm record @ ''|url|'' @ url_norm record
         else text_norm record)
      else if title_norm record \<noteq> [] then
        (if url_norm record \<noteq> [] then title_norm record @ ''|url|'' @ url_norm record
         else title_norm record)
      else if url_norm record \<noteq> [] then ''url|'' @ url_norm record
      else (case string_field record ''id'' of Some s \<Rightarrow> ''id|'' @ s | None \<Rightarrow> []))"

section \<open>The dedup engine\<close>

text \<open>
  \<open>struct Stats\<close>: six \<open>std::size_t\<close> counters, 64 bits wide on the LP64 targets
  the programs are built for; \<open>++\<close> wraps around.
\<close>

record Stats =
  total :: "64 word"
  parsed :: "64 word"
  written :: "64 word"
  duplicates :: "64 word"
  parse_errors :: "64 word"
  empty_lines :: "64 word"

text \<open>
  The variables of the read loop: the counters, the \<open>std::unordered_set\<close> of keys,
  the bytes sent to the output file and the bytes sent to \<open>std::cerr\<close>.
\<close>

record engine =
  stats :: Stats
  seen_keys :: "string set"
  out :: string
  err :: string

definition Stats_init :: Stats where
  "Stats_init = \<lparr>total = 0, parsed = 0, written = 0, duplicates = 0,
                  parse_errors = 0, empty_lines = 0\<rparr>"

definition engine_init :: engine where
  "engine_init = \<lparr>stats = Stats_init, seen_keys = {}, out = [], err = []\<rparr>"

text \<open>
  \<open>json::parse\<close> belongs to the nlohmann library, which is not part of the
  repository: the engine takes it as a parameter. It returns the record, or
  (\<open>Inl\<close>) the text \<open>ex.what()\<close> of the exception it throws.
\<close>

type_synonym parser = "string \<Rightarrow> string + json"

text \<open>
  Lines 159 to 162 of \<open>gdelt_dedup.cpp\<close> (162 to 165 of \<open>jsonl_dedup.cpp\<close>): the
  key of a record, with the positional key when \<open>build_key\<close> returns the empty
  string; \<open>n\<close> is \<open>stats.total\<close>, already incremented for this line.
\<close>

definition record_key :: "json \<Rightarrow> 64 word \<Rightarrow> string" where
  "record_key record n =
     (let key = build_key record
      in if key = [] then ''line|'' @ to_string (unat n) else key)"

text \<open>
  One pass through the body of \<open>while (std::getline(in, line))\<close>, which is the same
  in \<open>main\<close> of \<open>gdelt_dedup.cpp\<close> and in \<open>dedup_file\<close> of \<open>jsonl_dedup.cpp\<close>.
  \<open>seen_keys.emplace\<close> inserts the key and reports whether it was new. What comes
  before the loop (the input file exists, the output directory can be created, both
  files open) and after it (printing the counters, summing them over the files of a
  directory) is not part of this model.
\<close>

definition process_line :: "parser \<Rightarrow> engine \<Rightarrow> string \<Rightarrow> engine" where
  "process_line parse st line =
     (let s1 = (stats st)\<lparr>total := total (stats st) + 1\<rparr>
      in if line = [] then st\<lparr>stats := s1\<lparr>empty_lines := empty_lines s1 + 1\<rparr>\<rparr>
         else case parse line of
           Inl what \<Rightarrow>
             st\<lparr>stats := s1\<lparr>parse_errors := parse_errors s1 + 1\<rparr>,
                err := err st @ ''Skipping malformed JSON (line '' @ to_string (unat (total s1))
                         @ ''): '' @ what @ [CHR 0x0A]\<rparr>
         | Inr record \<Rightarrow>
             (let s2 = s1\<lparr>parsed := parsed s1 + 1\<rparr>;
                  key = record_key record (total s2);
                  inserted = (key \<notin> seen_keys st);
                  seen = insert key (seen_keys st)
              in if \<not> inserted
                 then st\<lparr>stats := s2\<lparr>duplicates := duplicates s2 + 1\<rparr>, seen_keys := seen\<rparr>
                 else st\<lparr>stats := s2\<lparr>written := written s2 + 1\<rparr>, seen_keys := seen,
                         out := out st @ line @ [CHR 0x0A]\<rparr>))"

text \<open>The loop over the lines that \<open>std::getline\<close> delivers, from a given state.\<close>

fun dedup_from :: "parser \<Rightarrow> engine \<Rightarrow> string list \<Rightarrow> engine" where
  "dedup_from parse st [] = st"
| "dedup_from parse st (line # rest) = dedup_from parse (process_line parse st line) rest"

definition dedup_lines :: "parser \<Rightarrow> string list \<Rightarrow> engine" where
  "dedup_lines parse ls = dedup_from parse engine_init ls"

text \<open>
  The read loop gets its lines from \<open>std::getline\<close> on the input file: the bytes up
  to the next line feed, which is consumed and not part of the line; at the end of the
  file a last line without a line feed is still delivered, and the loop stops when no
  byte is left.
\<close>

function getlines :: "string \<Rightarrow> string list" where
  "getlines content =
     (if content = [] then []
      else takeWhile (\<lambda>c. c \<noteq> CHR 0x0A) content
             # getlines (drop 1 (dropWhile (\<lambda>c. c \<noteq> CHR 0x0A) content)))"
  by pat_completeness auto
termination
proof (relation "measure length")
  show "wf (measure length)" by simp
next
  fix content :: string
  assume ne: "content \<noteq> []"
  have le: "length (dropWhile (\<lambda>c. c \<noteq> CHR 0x0A) content) \<le> length content"
    by (rule length_dropWhile_le)
  have "length (drop 1 (dropWhile (\<lambda>c. c \<noteq> CHR 0x0A) content)) < length content"
  proof (cases "dropWhile (\<lambda>c. c \<noteq> CHR 0x0A) content")
    case Nil
    from ne show ?thesis unfolding Nil by simp
  next
    case (Cons x xs)
    from le show ?thesis unfolding Cons by simp
  qed
  then show "(drop 1 (dropWhile (\<lambda>c. c \<noteq> CHR 0x0A) content), content) \<in> measure length"
    unfolding measure_def inv_image_def by blast
qed

declare getlines.simps [simp del]

definition dedup_stream :: "parser \<Rightarrow> string \<Rightarrow> engine" where
  "dedup_stream parse content = dedup_lines parse (getlines content)"

text \<open>What \<open>out << line << '\n'\<close> sends for a sequence of lines.\<close>

definition emitted :: "string list \<Rightarrow> string" where
  "emitted ks = concat (map (\<lambda>l. l @ [CHR 0x0A]) ks)"

text \<open>A record that has none of the four fields the key is built from.\<close>

definition lacks_fields :: "json \<Rightarrow> bool" where
  "lacks_fields record \<longleftrightarrow>
     find_json record ''text'' = None \<and> find_json record ''title'' = None
     \<and> find_json record ''url'' = None \<and> find_json record ''id'' = None"

text \<open>
  The two equations between the counters that the specification calls the invariant of
  the run statistics. The counters are 64-bit words, so the equations are read as the
  program would evaluate them, modulo \<open>2^64\<close>.
\<close>

definition stats_consistent :: "Stats \<Rightarrow> bool" where
  "stats_consistent s \<longleftrightarrow>
     total s = parsed s + parse_errors s + empty_lines s \<and> parsed s = written s + duplicates s"

section \<open>Auxiliary definitions for the proofs\<close>

text \<open>
  The output of the \<open>for\<close> loop of \<open>normalize_ascii_lower\<close> as a recursion on the
  input, with the flag \<open>in_space\<close> as an argument (lemma \<open>foldl_norm_step\<close> relates
  it to the loop).
\<close>

fun collapse :: "bool \<Rightarrow> string \<Rightarrow> string" where
  "collapse in_space [] = []"
| "collapse in_space (ch # rest) =
     (if isspace ch then (if in_space then collapse True rest else CHR '' '' # collapse True rest)
      else tolower ch # collapse False rest)"

text \<open>
  A byte that the loop leaves as it is, and a string in which every byte is such a one
  and no space follows a space.
\<close>

definition plain :: "char \<Rightarrow> bool" where
  "plain ch \<longleftrightarrow> (isspace ch \<longrightarrow> ch = CHR '' '') \<and> tolower ch = ch"

fun tidy :: "string \<Rightarrow> bool" where
  "tidy [] = True"
| "tidy (ch # rest) =
     (plain ch \<and> (ch = CHR '' '' \<longrightarrow> rest = [] \<or> hd rest \<noteq> CHR '' '') \<and> tidy rest)"

text \<open>
  Concrete streams need a concrete parser. \<open>sample_parse\<close> gives the result of
  \<open>json::parse\<close> on a few lines, each a JSON object written without white space; it
  reports every other line as malformed, which is what the library does for the one
  such line used below, the truncated \<open>{"text":\<close>. The text of the library's message
  is not modelled: a fixed text stands for it. Four of the lines have names: two
  records with the same short text (up to case and spacing) and different URLs, and two
  with the same text of 88 bytes and different URLs.
\<close>

definition short_a_line :: string where
  \<open>short_a_line = ''{"text":"Hi  there","url":"http://A.example/"}''\<close>

definition short_a_record :: json where
  "short_a_record =
     JObject [(''text'', JString ''Hi  there''), (''url'', JString ''http://A.example/'')]"

definition short_b_line :: string where
  \<open>short_b_line = ''{"text":"hi there","url":"http://b.example"}''\<close>

definition short_b_record :: json where
  "short_b_record =
     JObject [(''text'', JString ''hi there''), (''url'', JString ''http://b.example'')]"

definition long_a_line :: string where
  \<open>long_a_line = ''{"text":"The Quick Brown Fox Jumps Over The Lazy Dog While The Cat Sleeps Near The Warm Fireplace","url":"http://a.example"}''\<close>

definition long_a_record :: json where
  "long_a_record =
     JObject [(''text'', JString ''The Quick Brown Fox Jumps Over The Lazy Dog While The Cat Sleeps Near The Warm Fireplace''),
              (''url'', JString ''http://a.example'')]"

definition long_b_line :: string where
  \<open>long_b_line = ''{"text":"the quick brown fox jumps over the lazy dog while the cat sleeps near the warm fireplace","url":"http://b.example"}''\<close>

definition long_b_record :: json where
  "long_b_record =
     JObject [(''text'', JString ''the quick brown fox jumps over the lazy dog while the cat sleeps near the warm fireplace''),
              (''url'', JString ''http://b.example'')]"

definition sample_table :: "(string \<times> json) list" where
  \<open>sample_table =
     [(''{}'', JObject []),
      (''{"n":1}'', JObject [(''n'', JNumber 1)]),
      (''{"id":""}'', JObject [(''id'', JString [])]),
      (''{"id":"x"}'', JObject [(''id'', JString ''x'')]),
      (''{"text":"id|x"}'', JObject [(''text'', JString ''id|x'')]),
      (short_a_line, short_a_record),
      (short_b_line, short_b_record),
      (long_a_line, long_a_record),
      (long_b_line, long_b_record)]\<close>

definition sample_parse :: parser where
  "sample_parse line =
     (case map_of sample_table line of Some record \<Rightarrow> Inr record | None \<Rightarrow> Inl ''parse error'')"

section \<open>Normalisation: facts\<close>

lemma isspace_space [simp]: "isspace (CHR '' '')"
  by (simp add: isspace_def)

lemma tolower_space [simp]: "tolower (CHR '' '') = CHR '' ''"
  by (simp add: tolower_def)

lemma isspace_tolower [simp]: "isspace (tolower ch) = isspace ch"
  by (auto simp: isspace_def tolower_def Let_def)

lemma tolower_idem [simp]: "tolower (tolower ch) = tolower ch"
  by (auto simp: tolower_def Let_def)

lemma plain_space [simp]: "plain (CHR '' '')"
  by (simp add: plain_def)

lemma plain_tolower [simp]: "\<not> isspace ch \<Longrightarrow> plain (tolower ch)"
  by (simp add: plain_def)

lemma plain_isspace: "plain ch \<Longrightarrow> isspace ch \<Longrightarrow> ch = CHR '' ''"
  by (simp add: plain_def)

lemma plain_lower: "plain ch \<Longrightarrow> tolower ch = ch"
  by (simp add: plain_def)

lemma tolower_high: "128 \<le> (of_char ch :: nat) \<Longrightarrow> tolower ch = ch"
  by (simp add: tolower_def)

lemma foldl_norm_step:
  "fst (foldl norm_step (acc, in_space) input) = acc @ collapse in_space input"
  by (induction input arbitrary: acc in_space) (simp_all add: norm_step_def)

lemma erase_leading_dropWhile: "erase_leading c xs = dropWhile (\<lambda>x. x = c) xs"
  by (induction xs) simp_all

lemma pop_trailing_Nil [simp]: "pop_trailing c [] = []"
  by (simp add: pop_trailing.simps)

lemma pop_trailing_snoc [simp]:
  "pop_trailing c (xs @ [x]) = (if x = c then pop_trailing c xs else xs @ [x])"
  by (subst pop_trailing.simps) simp

lemma pop_trailing_decomp: "\<exists>n. pop_trailing c xs @ replicate n c = xs"
proof (induction xs rule: rev_induct)
  case Nil
  show ?case by simp
next
  case (snoc x xs)
  show ?case
  proof (cases "x = c")
    case True
    from snoc obtain n where n: "pop_trailing c xs @ replicate n c = xs" ..
    have "pop_trailing c xs @ replicate (Suc n) c = (pop_trailing c xs @ replicate n c) @ [c]"
      by (simp add: replicate_append_same)
    also have "\<dots> = xs @ [c]" by (simp only: n)
    finally have "pop_trailing c (xs @ [x]) @ replicate (Suc n) c = xs @ [x]"
      using True by (simp del: replicate_Suc)
    then show ?thesis ..
  next
    case False
    then have "pop_trailing c (xs @ [x]) @ replicate 0 c = xs @ [x]" by simp
    then show ?thesis ..
  qed
qed

lemma pop_trailing_last: "pop_trailing c xs = [] \<or> last (pop_trailing c xs) \<noteq> c"
  by (induction xs rule: rev_induct) simp_all

lemma pop_trailing_id: "xs = [] \<or> last xs \<noteq> c \<Longrightarrow> pop_trailing c xs = xs"
  by (subst pop_trailing.simps) auto

lemma pop_trailing_prefix: "prefix (pop_trailing c xs) xs"
  using pop_trailing_decomp [of c xs] by (metis prefixI)

lemma collapse_True_hd: "collapse True s = [] \<or> hd (collapse True s) \<noteq> CHR '' ''"
proof (induction s)
  case Nil
  show ?case by simp
next
  case (Cons ch s)
  show ?case
  proof (cases "isspace ch")
    case True
    with Cons show ?thesis by simp
  next
    case False
    then have "tolower ch \<noteq> CHR '' ''"
      by (metis isspace_space isspace_tolower)
    with False show ?thesis by simp
  qed
qed

lemma tidy_collapse: "tidy (collapse b s)"
proof (induction s arbitrary: b)
  case Nil
  show ?case by simp
next
  case (Cons ch s)
  show ?case
  proof (cases "isspace ch")
    case True
    then show ?thesis using Cons collapse_True_hd [of s] by simp
  next
    case False
    then have "tolower ch \<noteq> CHR '' ''"
      by (metis isspace_space isspace_tolower)
    with False show ?thesis using Cons by simp
  qed
qed

lemma collapse_tidy:
  "tidy s \<Longrightarrow> (b \<longrightarrow> s = [] \<or> hd s \<noteq> CHR '' '') \<Longrightarrow> collapse b s = s"
proof (induction s arbitrary: b)
  case Nil
  show ?case by simp
next
  case (Cons ch s)
  from Cons.prems have p: "plain ch" and t: "tidy s"
    and h: "ch = CHR '' '' \<longrightarrow> s = [] \<or> hd s \<noteq> CHR '' ''" by simp_all
  show ?case
  proof (cases "isspace ch")
    case True
    with p have sp: "ch = CHR '' ''" by (rule plain_isspace)
    with h have "collapse True s = s" using Cons.IH [OF t, of True] by simp
    moreover from Cons.prems(2) sp have "\<not> b" by simp
    ultimately show ?thesis using True sp by simp
  next
    case False
    then show ?thesis using Cons.IH [OF t, of False] plain_lower [OF p] by simp
  qed
qed

lemma tidy_dropWhile: "tidy s \<Longrightarrow> tidy (dropWhile P s)"
  by (induction s) simp_all

lemma tidy_append_left: "tidy (xs @ ys) \<Longrightarrow> tidy xs"
proof (induction xs)
  case Nil
  show ?case by simp
next
  case (Cons x xs)
  from Cons.prems have t: "tidy (xs @ ys)" by simp
  have "x = CHR '' '' \<longrightarrow> xs = [] \<or> hd xs \<noteq> CHR '' ''"
    using Cons.prems by (cases xs) simp_all
  with Cons.prems Cons.IH [OF t] show ?case by simp
qed

lemma tidy_prefix: "prefix xs ys \<Longrightarrow> tidy ys \<Longrightarrow> tidy xs"
  by (auto simp: prefix_def dest: tidy_append_left)

lemma hd_dropWhile_space:
  "dropWhile (\<lambda>x. x = c) s = [] \<or> hd (dropWhile (\<lambda>x. x = c) s) \<noteq> c"
  using hd_dropWhile [of "\<lambda>x. x = c" s] by blast

lemma normalize_ascii_lower_eq:
  "normalize_ascii_lower s =
     pop_trailing (CHR '' '') (dropWhile (\<lambda>x. x = CHR '' '') (collapse False s))"
  using foldl_norm_step [of "[]" False s]
  by (simp add: normalize_ascii_lower_def erase_leading_dropWhile)

lemma normalize_ascii_lower_tidy: "tidy (normalize_ascii_lower s)"
  unfolding normalize_ascii_lower_eq
  by (rule tidy_prefix [OF pop_trailing_prefix]) (rule tidy_dropWhile [OF tidy_collapse])

lemma normalize_ascii_lower_hd:
  "normalize_ascii_lower s = [] \<or> hd (normalize_ascii_lower s) \<noteq> CHR '' ''"
proof -
  let ?d = "dropWhile (\<lambda>x. x = CHR '' '') (collapse False s)"
  have p: "prefix (normalize_ascii_lower s) ?d"
    unfolding normalize_ascii_lower_eq by (rule pop_trailing_prefix)
  show ?thesis
  proof (cases "normalize_ascii_lower s")
    case Nil
    then show ?thesis by simp
  next
    case (Cons x xs)
    with p obtain zs where "?d = x # zs" by (auto simp: prefix_def)
    with hd_dropWhile_space [of "CHR '' ''" "collapse False s"] Cons show ?thesis by simp
  qed
qed

lemma normalize_ascii_lower_last:
  "normalize_ascii_lower s = [] \<or> last (normalize_ascii_lower s) \<noteq> CHR '' ''"
  unfolding normalize_ascii_lower_eq by (rule pop_trailing_last)

lemma dropWhile_id: "s = [] \<or> \<not> P (hd s) \<Longrightarrow> dropWhile P s = s"
  by (cases s) auto

lemma normalize_fixed:
  assumes "tidy s" and "s = [] \<or> hd s \<noteq> CHR '' ''" and "s = [] \<or> last s \<noteq> CHR '' ''"
  shows "normalize_ascii_lower s = s"
proof -
  have "collapse False s = s" using assms(1) by (simp add: collapse_tidy)
  moreover have "dropWhile (\<lambda>x. x = CHR '' '') s = s" using assms(2) by (rule dropWhile_id)
  moreover have "pop_trailing (CHR '' '') s = s" using assms(3) by (rule pop_trailing_id)
  ultimately show ?thesis by (simp add: normalize_ascii_lower_eq)
qed

lemma high_not_space: "128 \<le> (of_char ch :: nat) \<Longrightarrow> \<not> isspace ch"
  by (simp add: isspace_def)

lemma high_tolower: "128 \<le> (of_char (tolower ch) :: nat) \<longleftrightarrow> 128 \<le> (of_char ch :: nat)"
  by (auto simp: tolower_def Let_def)

lemma filter_high_collapse:
  "filter (\<lambda>c. 128 \<le> (of_char c :: nat)) (collapse b s) = filter (\<lambda>c. 128 \<le> (of_char c :: nat)) s"
proof (induction s arbitrary: b)
  case Nil
  show ?case by simp
next
  case (Cons ch s)
  show ?case
  proof (cases "isspace ch")
    case True
    then have "\<not> 128 \<le> (of_char ch :: nat)" using high_not_space by blast
    with True Cons show ?thesis by simp
  next
    case False
    then show ?thesis using Cons by (auto simp: high_tolower tolower_high)
  qed
qed

lemma filter_high_dropWhile:
  "filter (\<lambda>c. 128 \<le> (of_char c :: nat)) (dropWhile (\<lambda>x. x = CHR '' '') xs)
     = filter (\<lambda>c. 128 \<le> (of_char c :: nat)) xs"
  by (induction xs) simp_all

lemma filter_high_pop_trailing:
  "filter (\<lambda>c. 128 \<le> (of_char c :: nat)) (pop_trailing (CHR '' '') xs)
     = filter (\<lambda>c. 128 \<le> (of_char c :: nat)) xs"
  by (induction xs rule: rev_induct) simp_all

lemma normalize_ascii_lower_high:
  "filter (\<lambda>c. 128 \<le> (of_char c :: nat)) (normalize_ascii_lower s)
     = filter (\<lambda>c. 128 \<le> (of_char c :: nat)) s"
  by (simp only: normalize_ascii_lower_eq filter_high_pop_trailing filter_high_dropWhile
      filter_high_collapse)

text \<open>
  Claim C6. Text and title normalisation is idempotent: normalising the result of
  \<open>normalize_ascii_lower\<close> again returns it unchanged, for every byte string. The
  bytes from 0x80 on of the result are those of the input, in the same order. The
  example shows the rest: a run of white space (space, tab, line feed, vertical tab,
  form feed, carriage return) becomes one space, \<open>A\<close> to \<open>Z\<close> become lower case,
  and the spaces at both ends are removed.
\<close>

theorem normalize_ascii_lower_idempotent:
  "normalize_ascii_lower (normalize_ascii_lower s) = normalize_ascii_lower s
   \<and> filter (\<lambda>c. 128 \<le> (of_char c :: nat)) (normalize_ascii_lower s)
       = filter (\<lambda>c. 128 \<le> (of_char c :: nat)) s
   \<and> normalize_ascii_lower
         [CHR '' '', CHR 0x09, CHR ''H'', CHR ''e'', CHR ''L'', CHR 0x0D, CHR 0x0A, CHR '' '',
          CHR ''W'', CHR 0xC3, CHR 0x89, CHR 0x0B, CHR 0x0C]
       = [CHR ''h'', CHR ''e'', CHR ''l'', CHR '' '', CHR ''w'', CHR 0xC3, CHR 0x89]"
proof (intro conjI)
  show "normalize_ascii_lower (normalize_ascii_lower s) = normalize_ascii_lower s"
    by (rule normalize_fixed)
      (rule normalize_ascii_lower_tidy normalize_ascii_lower_hd normalize_ascii_lower_last)+
  show "filter (\<lambda>c. 128 \<le> (of_char c :: nat)) (normalize_ascii_lower s)
       = filter (\<lambda>c. 128 \<le> (of_char c :: nat)) s"
    by (rule normalize_ascii_lower_high)
  show "normalize_ascii_lower
         [CHR '' '', CHR 0x09, CHR ''H'', CHR ''e'', CHR ''L'', CHR 0x0D, CHR 0x0A, CHR '' '',
          CHR ''W'', CHR 0xC3, CHR 0x89, CHR 0x0B, CHR 0x0C]
       = [CHR ''h'', CHR ''e'', CHR ''l'', CHR '' '', CHR ''w'', CHR 0xC3, CHR 0x89]"
    by code_simp
qed

lemma normalize_urlish_example: "normalize_urlish ''HTTP://X.com///'' = ''http://x.com''"
  by code_simp

text \<open>
  Claim C7. URL normalisation lowers the case of ASCII letters and removes every
  trailing \<open>/\<close>, not only one: \<open>HTTP://X.com///\<close> becomes \<open>http://x.com\<close>; for every
  input the result is empty or does not end in \<open>/\<close>, and it differs from the
  lower-cased input only by the slashes removed at the end.
\<close>

theorem normalize_urlish_strips_all:
  "normalize_urlish ''HTTP://X.com///'' = ''http://x.com''
   \<and> (\<forall>url. (normalize_urlish url = [] \<or> last (normalize_urlish url) \<noteq> CHR ''/'')
        \<and> (\<exists>n. normalize_urlish url @ replicate n (CHR ''/'') = map tolower url))"
  using normalize_urlish_example pop_trailing_last pop_trailing_decomp
  by (simp add: normalize_urlish_def)

theorem normalize_urlish_strips_all_witness:
  "normalize_urlish ''A/b//'' \<noteq> [] \<and> last (normalize_urlish ''A/b//'') \<noteq> CHR ''/''"
proof -
  have ne: "normalize_urlish ''A/b//'' \<noteq> []" by code_simp
  with normalize_urlish_strips_all show ?thesis by blast
qed

section \<open>Decimal numbers\<close>

lemma to_string_nonempty: "to_string n \<noteq> []"
  by (subst to_string.simps) simp

lemma digit_char_inj: "a < 10 \<Longrightarrow> b < 10 \<Longrightarrow> digit_char a = digit_char b \<Longrightarrow> a = b"
proof -
  assume a: "a < 10" and b: "b < 10" and e: "digit_char a = digit_char b"
  from e have "(of_char (digit_char a) :: nat) = of_char (digit_char b)" by simp
  with a b show "a = b" by (simp add: digit_char_def)
qed

lemma to_string_small: "n < 10 \<Longrightarrow> to_string n = [digit_char n]"
  by (subst to_string.simps) simp

lemma to_string_big:
  "\<not> n < 10 \<Longrightarrow> to_string n = to_string (n div 10) @ [digit_char (n mod 10)]"
  by (subst to_string.simps) simp

lemma to_string_inj: "to_string m = to_string n \<Longrightarrow> m = n"
proof (induction m arbitrary: n rule: to_string.induct)
  case (1 m)
  show ?case
  proof (cases "m < 10")
    case m: True
    show ?thesis
    proof (cases "n < 10")
      case True
      with m "1.prems" show ?thesis by (simp add: to_string_small digit_char_inj)
    next
      case False
      with m "1.prems" to_string_nonempty [of "n div 10"] show ?thesis
        by (simp add: to_string_small to_string_big)
    qed
  next
    case m: False
    show ?thesis
    proof (cases "n < 10")
      case True
      with m "1.prems" to_string_nonempty [of "m div 10"] show ?thesis
        by (simp add: to_string_small to_string_big)
    next
      case False
      with m "1.prems" have e: "to_string (m div 10) = to_string (n div 10)"
        and d: "digit_char (m mod 10) = digit_char (n mod 10)"
        by (simp_all add: to_string_big)
      from "1.IH" [OF m e] have q: "m div 10 = n div 10" .
      from d have r: "m mod 10 = n mod 10" by (intro digit_char_inj) simp_all
      from q r show ?thesis by (metis div_mult_mod_eq)
    qed
  qed
qed

text \<open>The counters stay below \<open>2^64\<close> as long as the stream has fewer lines than that.\<close>

lemma unat_total_step:
  assumes "unat (n :: 64 word) + 1 < 2 ^ 64"
  shows "unat (n + 1) = unat n + 1"
proof -
  have "unat n + unat (1 :: 64 word) < 2 ^ LENGTH(64)" using assms by simp
  then have "unat (n + 1) = unat n + unat (1 :: 64 word)" by (simp only: unat_add_lem)
  then show ?thesis by simp
qed

lemma unat_of_nat_line: "n < 2 ^ 64 \<Longrightarrow> unat (of_nat n :: 64 word) = n"
  by (simp add: unat_of_nat)

section \<open>The loop as a whole\<close>

lemma dedup_from_append:
  "dedup_from parse st (xs @ ys) = dedup_from parse (dedup_from parse st xs) ys"
  by (induction xs arbitrary: st) simp_all

lemma dedup_from_snoc:
  "dedup_from parse st (xs @ [l]) = process_line parse (dedup_from parse st xs) l"
  by (simp add: dedup_from_append)

lemma dedup_lines_snoc:
  "dedup_lines parse (xs @ [l]) = process_line parse (dedup_lines parse xs) l"
  by (simp add: dedup_lines_def dedup_from_snoc)

lemma dedup_lines_Nil: "dedup_lines parse [] = engine_init"
  by (simp add: dedup_lines_def)

section \<open>The counters\<close>

lemma process_line_consistent:
  "stats_consistent (stats st) \<Longrightarrow> stats_consistent (stats (process_line parse st l))"
  by (simp add: stats_consistent_def process_line_def Let_def split: sum.split)

lemma dedup_from_consistent:
  "stats_consistent (stats st) \<Longrightarrow> stats_consistent (stats (dedup_from parse st ls))"
  by (induction ls arbitrary: st) (simp_all add: process_line_consistent)

lemma dedup_lines_consistent: "stats_consistent (stats (dedup_lines parse ls))"
  unfolding dedup_lines_def
  by (rule dedup_from_consistent) (simp add: stats_consistent_def engine_init_def Stats_init_def)

lemma process_line_counts_nat:
  assumes t: "unat (total (stats st)) = n"
    and a: "unat (parsed (stats st)) + unat (parse_errors (stats st))
              + unat (empty_lines (stats st)) = n"
    and b: "unat (written (stats st)) + unat (duplicates (stats st)) = unat (parsed (stats st))"
    and bound: "n + 1 < 2 ^ 64"
  shows "unat (total (stats (process_line parse st l))) = n + 1
    \<and> unat (parsed (stats (process_line parse st l)))
        + unat (parse_errors (stats (process_line parse st l)))
        + unat (empty_lines (stats (process_line parse st l))) = n + 1
    \<and> unat (written (stats (process_line parse st l)))
        + unat (duplicates (stats (process_line parse st l)))
        = unat (parsed (stats (process_line parse st l)))"
proof -
  have st: "unat (total (stats st) + 1) = unat (total (stats st)) + 1"
    using t bound by (intro unat_total_step) simp
  have sp: "unat (parsed (stats st) + 1) = unat (parsed (stats st)) + 1"
    using a bound by (intro unat_total_step) simp
  have se: "unat (parse_errors (stats st) + 1) = unat (parse_errors (stats st)) + 1"
    using a bound by (intro unat_total_step) simp
  have sl: "unat (empty_lines (stats st) + 1) = unat (empty_lines (stats st)) + 1"
    using a bound by (intro unat_total_step) simp
  have sw: "unat (written (stats st) + 1) = unat (written (stats st)) + 1"
    using a b bound by (intro unat_total_step) simp
  have sd: "unat (duplicates (stats st) + 1) = unat (duplicates (stats st)) + 1"
    using a b bound by (intro unat_total_step) simp
  show ?thesis
  proof (cases "l = []")
    case True
    with t a b show ?thesis by (simp add: process_line_def st sl)
  next
    case ne: False
    show ?thesis
    proof (cases "parse l")
      case (Inl what)
      with ne t a b show ?thesis by (simp add: process_line_def st se)
    next
      case (Inr r)
      with ne t a b show ?thesis by (simp add: process_line_def Let_def st sp sw sd)
    qed
  qed
qed

lemma dedup_from_counts_nat:
  assumes "unat (total (stats st)) = n"
    and "unat (parsed (stats st)) + unat (parse_errors (stats st))
              + unat (empty_lines (stats st)) = n"
    and "unat (written (stats st)) + unat (duplicates (stats st)) = unat (parsed (stats st))"
    and "n + length ls < 2 ^ 64"
  shows "unat (total (stats (dedup_from parse st ls))) = n + length ls
    \<and> unat (parsed (stats (dedup_from parse st ls)))
        + unat (parse_errors (stats (dedup_from parse st ls)))
        + unat (empty_lines (stats (dedup_from parse st ls))) = n + length ls
    \<and> unat (written (stats (dedup_from parse st ls)))
        + unat (duplicates (stats (dedup_from parse st ls)))
        = unat (parsed (stats (dedup_from parse st ls)))"
  using assms
proof (induction ls arbitrary: st n)
  case Nil
  then show ?case by simp
next
  case (Cons l ls)
  let ?s = "process_line parse st l"
  from Cons.prems(4) have b1: "n + 1 < 2 ^ 64" by simp
  from process_line_counts_nat [OF Cons.prems(1,2,3) b1, of parse l]
  have s1: "unat (total (stats ?s)) = n + 1"
    and s2: "unat (parsed (stats ?s)) + unat (parse_errors (stats ?s))
        + unat (empty_lines (stats ?s)) = n + 1"
    and s3: "unat (written (stats ?s)) + unat (duplicates (stats ?s)) = unat (parsed (stats ?s))"
    by blast+
  from Cons.prems(4) have b2: "(n + 1) + length ls < 2 ^ 64" by simp
  from Cons.IH [OF s1 s2 s3 b2] show ?case by simp
qed

lemma dedup_lines_counts_nat:
  assumes "length ls < 2 ^ 64"
  shows "unat (total (stats (dedup_lines parse ls))) = length ls
    \<and> unat (parsed (stats (dedup_lines parse ls)))
        + unat (parse_errors (stats (dedup_lines parse ls)))
        + unat (empty_lines (stats (dedup_lines parse ls))) = length ls
    \<and> unat (written (stats (dedup_lines parse ls)))
        + unat (duplicates (stats (dedup_lines parse ls)))
        = unat (parsed (stats (dedup_lines parse ls)))"
  using dedup_from_counts_nat [where st = engine_init and n = 0 and ls = ls and parse = parse] assms
  by (simp add: dedup_lines_def engine_init_def Stats_init_def)

text \<open>
  Claim C1. After the engine has run over any finite stream of lines, and after it has
  run over any prefix \<open>take n ls\<close> of the stream, the counters satisfy
  \<open>total = parsed + parse_errors + empty_lines\<close> and \<open>parsed = written + duplicates\<close>,
  for every parser: as equations between the 64-bit counters always, and as equations
  between numbers when the stream has fewer than \<open>2^64\<close> lines, where no counter has
  wrapped around.
\<close>

theorem stats_invariant:
  "(let s = stats (dedup_lines parse ls)
    in total s = parsed s + parse_errors s + empty_lines s \<and> parsed s = written s + duplicates s)
   \<and> (\<forall>n. let s = stats (dedup_lines parse (take n ls))
        in total s = parsed s + parse_errors s + empty_lines s
           \<and> parsed s = written s + duplicates s)
   \<and> (length ls < 2 ^ 64 \<longrightarrow>
        (\<forall>n. let s = stats (dedup_lines parse (take n ls))
           in unat (total s) = unat (parsed s) + unat (parse_errors s) + unat (empty_lines s)
              \<and> unat (parsed s) = unat (written s) + unat (duplicates s)))"
proof -
  have "length ls < 2 ^ 64 \<longrightarrow> length (take n ls) < 2 ^ 64" for n
    by (auto simp: min_def)
  then have "length ls < 2 ^ 64 \<longrightarrow>
        (\<forall>n. let s = stats (dedup_lines parse (take n ls))
           in unat (total s) = unat (parsed s) + unat (parse_errors s) + unat (empty_lines s)
              \<and> unat (parsed s) = unat (written s) + unat (duplicates s))"
    using dedup_lines_counts_nat [where parse = parse] unfolding Let_def by metis
  then show ?thesis
    using dedup_lines_consistent [of parse] by (simp add: stats_consistent_def Let_def)
qed

theorem stats_invariant_witness:
  \<open>length [''{"id":"x"}'', [], ''{"text":'', ''{"text":"id|x"}'', ''{}''] < 2 ^ 64
   \<and> unat (total (stats (dedup_lines sample_parse
         (take 5 [''{"id":"x"}'', [], ''{"text":'', ''{"text":"id|x"}'', ''{}''])))) = 5
   \<and> unat (parsed (stats (dedup_lines sample_parse
         (take 5 [''{"id":"x"}'', [], ''{"text":'', ''{"text":"id|x"}'', ''{}'']))))
       + unat (parse_errors (stats (dedup_lines sample_parse
         (take 5 [''{"id":"x"}'', [], ''{"text":'', ''{"text":"id|x"}'', ''{}'']))))
       + unat (empty_lines (stats (dedup_lines sample_parse
         (take 5 [''{"id":"x"}'', [], ''{"text":'', ''{"text":"id|x"}'', ''{}''])))) = 5
   \<and> unat (written (stats (dedup_lines sample_parse
         (take 5 [''{"id":"x"}'', [], ''{"text":'', ''{"text":"id|x"}'', ''{}'']))))
       + unat (duplicates (stats (dedup_lines sample_parse
         (take 5 [''{"id":"x"}'', [], ''{"text":'', ''{"text":"id|x"}'', ''{}''])))) = 3\<close>
proof -
  let ?ls = \<open>[''{"id":"x"}'', [], ''{"text":'', ''{"text":"id|x"}'', ''{}'']\<close>
  have len: "length ?ls < 2 ^ 64" by simp
  have t: "total (stats (dedup_lines sample_parse (take 5 ?ls))) = 5" by code_simp
  have p: "parsed (stats (dedup_lines sample_parse (take 5 ?ls))) = 3" by code_simp
  from stats_invariant [of sample_parse ?ls] len
  have "unat (total (stats (dedup_lines sample_parse (take 5 ?ls))))
      = unat (parsed (stats (dedup_lines sample_parse (take 5 ?ls))))
        + unat (parse_errors (stats (dedup_lines sample_parse (take 5 ?ls))))
        + unat (empty_lines (stats (dedup_lines sample_parse (take 5 ?ls))))
    \<and> unat (parsed (stats (dedup_lines sample_parse (take 5 ?ls))))
      = unat (written (stats (dedup_lines sample_parse (take 5 ?ls))))
        + unat (duplicates (stats (dedup_lines sample_parse (take 5 ?ls))))"
    unfolding Let_def by blast
  with len show ?thesis unfolding t p by simp
qed

section \<open>One pass of the loop, case by case\<close>

lemma process_line_empty:
  "process_line parse st [] =
     st\<lparr>stats := (stats st)\<lparr>total := total (stats st) + 1,
                             empty_lines := empty_lines (stats st) + 1\<rparr>\<rparr>"
  by (simp add: process_line_def)

lemma process_line_malformed:
  "l \<noteq> [] \<Longrightarrow> parse l = Inl what \<Longrightarrow>
   process_line parse st l =
     st\<lparr>stats := (stats st)\<lparr>total := total (stats st) + 1,
                             parse_errors := parse_errors (stats st) + 1\<rparr>,
        err := err st @ ''Skipping malformed JSON (line ''
                 @ to_string (unat (total (stats st) + 1)) @ ''): '' @ what @ [CHR 0x0A]\<rparr>"
  by (simp add: process_line_def)

lemma process_line_duplicate:
  "l \<noteq> [] \<Longrightarrow> parse l = Inr r \<Longrightarrow> record_key r (total (stats st) + 1) \<in> seen_keys st \<Longrightarrow>
   process_line parse st l =
     st\<lparr>stats := (stats st)\<lparr>total := total (stats st) + 1,
                             parsed := parsed (stats st) + 1,
                             duplicates := duplicates (stats st) + 1\<rparr>\<rparr>"
  by (simp add: process_line_def Let_def insert_absorb)

lemma process_line_written:
  "l \<noteq> [] \<Longrightarrow> parse l = Inr r \<Longrightarrow> record_key r (total (stats st) + 1) \<notin> seen_keys st \<Longrightarrow>
   process_line parse st l =
     st\<lparr>stats := (stats st)\<lparr>total := total (stats st) + 1,
                             parsed := parsed (stats st) + 1,
                             written := written (stats st) + 1\<rparr>,
        seen_keys := insert (record_key r (total (stats st) + 1)) (seen_keys st),
        out := out st @ l @ [CHR 0x0A]\<rparr>"
  by (simp add: process_line_def Let_def)

lemma process_line_cases:
  obtains (empty) "l = []"
  | (malformed) what where "l \<noteq> []" "parse l = Inl what"
  | (duplicate) r where "l \<noteq> []" "parse l = Inr r"
      "record_key r (total (stats st) + 1) \<in> seen_keys st"
  | (written) r where "l \<noteq> []" "parse l = Inr r"
      "record_key r (total (stats st) + 1) \<notin> seen_keys st"
  by (cases "parse l") auto

lemma process_line_total:
  "total (stats (process_line parse st l)) = total (stats st) + 1"
  by (rule process_line_cases [where l = l and parse = parse and st = st])
    (simp_all add: process_line_empty process_line_malformed process_line_duplicate
      process_line_written)

lemma process_line_seen_mono: "seen_keys st \<subseteq> seen_keys (process_line parse st l)"
  by (rule process_line_cases [where l = l and parse = parse and st = st])
    (auto simp: process_line_empty process_line_malformed process_line_duplicate
      process_line_written)

lemma dedup_from_seen_mono: "seen_keys st \<subseteq> seen_keys (dedup_from parse st ls)"
proof (induction ls arbitrary: st)
  case Nil
  show ?case by simp
next
  case (Cons l ls)
  from process_line_seen_mono Cons [of "process_line parse st l"]
  show ?case by (simp only: dedup_from.simps) (rule subset_trans)
qed

lemma process_line_key_seen:
  "l \<noteq> [] \<Longrightarrow> parse l = Inr r \<Longrightarrow>
   record_key r (total (stats st) + 1) \<in> seen_keys (process_line parse st l)"
  by (simp add: process_line_def Let_def)

lemma dedup_from_total:
  "total (stats (dedup_from parse st ls)) = total (stats st) + of_nat (length ls)"
  by (induction ls arbitrary: st) (simp_all add: process_line_total)

lemma dedup_lines_total: "total (stats (dedup_lines parse ls)) = of_nat (length ls)"
  by (simp add: dedup_lines_def dedup_from_total engine_init_def Stats_init_def)

lemma process_line_parse_errors:
  "parse_errors (stats (process_line parse st l)) =
     parse_errors (stats st) + (if l \<noteq> [] \<and> isl (parse l) then 1 else 0)"
  by (rule process_line_cases [where l = l and parse = parse and st = st])
    (simp_all add: process_line_empty process_line_malformed process_line_duplicate
      process_line_written)

lemma process_line_empty_lines:
  "empty_lines (stats (process_line parse st l)) =
     empty_lines (stats st) + (if l = [] then 1 else 0)"
  by (rule process_line_cases [where l = l and parse = parse and st = st])
    (simp_all add: process_line_empty process_line_malformed process_line_duplicate
      process_line_written)

lemma process_line_parsed:
  "parsed (stats (process_line parse st l)) =
     parsed (stats st) + (if l \<noteq> [] \<and> \<not> isl (parse l) then 1 else 0)"
  by (rule process_line_cases [where l = l and parse = parse and st = st])
    (simp_all add: process_line_empty process_line_malformed process_line_duplicate
      process_line_written)

lemma dedup_from_parse_errors:
  "parse_errors (stats (dedup_from parse st ls)) =
     parse_errors (stats st) + of_nat (length (filter (\<lambda>l. l \<noteq> [] \<and> isl (parse l)) ls))"
  by (induction ls arbitrary: st) (simp_all add: process_line_parse_errors)

lemma dedup_from_empty_lines:
  "empty_lines (stats (dedup_from parse st ls)) =
     empty_lines (stats st) + of_nat (length (filter (\<lambda>l. l = []) ls))"
  by (induction ls arbitrary: st) (simp_all add: process_line_empty_lines)

lemma dedup_from_parsed:
  "parsed (stats (dedup_from parse st ls)) =
     parsed (stats st) + of_nat (length (filter (\<lambda>l. l \<noteq> [] \<and> \<not> isl (parse l)) ls))"
  by (induction ls arbitrary: st) (simp_all add: process_line_parsed)

lemma emitted_Nil [simp]: "emitted [] = []"
  by (simp add: emitted_def)

lemma emitted_Cons [simp]: "emitted (l # ks) = l @ CHR 0x0A # emitted ks"
  by (simp add: emitted_def)

lemma emitted_append [simp]: "emitted (xs @ ys) = emitted xs @ emitted ys"
  by (simp add: emitted_def)

lemma process_line_out:
  "\<exists>kept. subseq kept (filter (\<lambda>l. l \<noteq> [] \<and> \<not> isl (parse l)) [l])
     \<and> out (process_line parse st l) = out st @ emitted kept
     \<and> written (stats (process_line parse st l)) = written (stats st) + of_nat (length kept)"
proof (cases rule: process_line_cases [where l = l and parse = parse and st = st])
  case empty
  then show ?thesis by (intro exI [of _ "[]"]) (simp add: process_line_empty)
next
  case (malformed what)
  then show ?thesis by (intro exI [of _ "[]"]) (simp add: process_line_malformed)
next
  case (duplicate r)
  then show ?thesis by (intro exI [of _ "[]"]) (simp add: process_line_duplicate)
next
  case (written r)
  then have "subseq [l] (filter (\<lambda>l. l \<noteq> [] \<and> \<not> isl (parse l)) [l])
     \<and> out (process_line parse st l) = out st @ emitted [l]
     \<and> Stats.written (stats (process_line parse st l)) = Stats.written (stats st) + of_nat (length [l])"
    by (simp add: process_line_written)
  then show ?thesis ..
qed

lemma dedup_from_out:
  "\<exists>kept. subseq kept (filter (\<lambda>l. l \<noteq> [] \<and> \<not> isl (parse l)) ls)
     \<and> out (dedup_from parse st ls) = out st @ emitted kept
     \<and> written (stats (dedup_from parse st ls)) = written (stats st) + of_nat (length kept)"
proof (induction ls arbitrary: st)
  case Nil
  have "subseq [] (filter (\<lambda>l. l \<noteq> [] \<and> \<not> isl (parse l)) [])
     \<and> out (dedup_from parse st []) = out st @ emitted []
     \<and> written (stats (dedup_from parse st [])) = written (stats st) + of_nat (length ([] :: string list))"
    by simp
  then show ?case ..
next
  case (Cons l ls)
  let ?good = "\<lambda>l. l \<noteq> [] \<and> \<not> isl (parse l)"
  let ?st = "process_line parse st l"
  from process_line_out [of parse l st] obtain k1 where
    k1: "subseq k1 (filter ?good [l])" "out ?st = out st @ emitted k1"
      "written (stats ?st) = written (stats st) + of_nat (length k1)" by blast
  from Cons [of ?st] obtain k2 where
    k2: "subseq k2 (filter ?good ls)" "out (dedup_from parse ?st ls) = out ?st @ emitted k2"
      "written (stats (dedup_from parse ?st ls)) = written (stats ?st) + of_nat (length k2)"
    by blast
  have "subseq (k1 @ k2) (filter ?good [l] @ filter ?good ls)"
    using k1(1) k2(1) by (rule list_emb_append_mono)
  moreover have "filter ?good [l] @ filter ?good ls = filter ?good (l # ls)" by simp
  ultimately have "subseq (k1 @ k2) (filter ?good (l # ls))" by (simp only:)
  moreover have "out (dedup_from parse st (l # ls)) = out st @ emitted (k1 @ k2)"
    using k1(2) k2(2) by simp
  moreover have "written (stats (dedup_from parse st (l # ls))) =
      written (stats st) + of_nat (length (k1 @ k2))"
    using k1(3) k2(3) by simp
  ultimately show ?case by blast
qed

lemma dedup_lines_parse_errors:
  "parse_errors (stats (dedup_lines parse ls)) =
     of_nat (length (filter (\<lambda>l. l \<noteq> [] \<and> isl (parse l)) ls))"
  by (simp add: dedup_lines_def dedup_from_parse_errors engine_init_def Stats_init_def)

lemma dedup_lines_empty_lines:
  "empty_lines (stats (dedup_lines parse ls)) = of_nat (length (filter (\<lambda>l. l = []) ls))"
  by (simp add: dedup_lines_def dedup_from_empty_lines engine_init_def Stats_init_def)

lemma dedup_lines_parsed:
  "parsed (stats (dedup_lines parse ls)) =
     of_nat (length (filter (\<lambda>l. l \<noteq> [] \<and> \<not> isl (parse l)) ls))"
  by (simp add: dedup_lines_def dedup_from_parsed engine_init_def Stats_init_def)

lemma dedup_lines_out:
  "\<exists>kept. subseq kept (filter (\<lambda>l. l \<noteq> [] \<and> \<not> isl (parse l)) ls)
     \<and> out (dedup_lines parse ls) = emitted kept
     \<and> written (stats (dedup_lines parse ls)) = of_nat (length kept)"
  using dedup_from_out [of parse ls engine_init]
  by (simp add: dedup_lines_def engine_init_def Stats_init_def)

text \<open>
  Claim C4. For every stream of lines, the bytes the engine writes are the lines of a
  subsequence \<open>kept\<close> of the input lines, in their order, each exactly as read and
  followed by one line feed; \<open>written\<close> counts them. The same holds when the lines are
  those that \<open>std::getline\<close> reads from the bytes of a file.
\<close>

theorem kept_lines_subsequence:
  "(\<exists>kept. subseq kept ls
      \<and> out (dedup_lines parse ls) = concat (map (\<lambda>l. l @ [CHR 0x0A]) kept)
      \<and> written (stats (dedup_lines parse ls)) = of_nat (length kept))
   \<and> (\<exists>kept. subseq kept (getlines content)
      \<and> out (dedup_stream parse content) = concat (map (\<lambda>l. l @ [CHR 0x0A]) kept))"
proof -
  have "\<exists>kept. subseq kept xs
      \<and> out (dedup_lines parse xs) = concat (map (\<lambda>l. l @ [CHR 0x0A]) kept)
      \<and> written (stats (dedup_lines parse xs)) = of_nat (length kept)" for xs
  proof -
    from dedup_lines_out [of parse xs] obtain kept where
      k: "subseq kept (filter (\<lambda>l. l \<noteq> [] \<and> \<not> isl (parse l)) xs)"
        "out (dedup_lines parse xs) = emitted kept"
        "written (stats (dedup_lines parse xs)) = of_nat (length kept)" by blast
    from k(1) have "subseq kept xs" by (rule subseq_order.trans) simp
    with k(2,3) show ?thesis unfolding emitted_def by blast
  qed
  from this [of ls] this [of "getlines content"] show ?thesis
    unfolding dedup_stream_def by blast
qed

text \<open>
  Claim C8. A non-empty line that fails to parse adds one to \<open>total\<close> and to
  \<open>parse_errors\<close>, sends a diagnostic with its line number to the error stream and
  changes nothing else: nothing is written, no key is recorded. An empty line adds one
  to \<open>total\<close> and to \<open>empty_lines\<close> and changes nothing else. Neither stops the loop:
  the lines after it are processed from the state it leaves. Over a whole stream,
  \<open>total\<close> counts every line, \<open>parse_errors\<close> the non-empty lines that fail to parse,
  \<open>empty_lines\<close> the empty lines, and the output holds only non-empty lines that parsed.
\<close>

theorem malformed_and_empty_lines:
  "(l \<noteq> [] \<and> parse l = Inl what \<longrightarrow>
      process_line parse st l =
        st\<lparr>stats := (stats st)\<lparr>total := total (stats st) + 1,
                                parse_errors := parse_errors (stats st) + 1\<rparr>,
           err := err st @ ''Skipping malformed JSON (line ''
                    @ to_string (unat (total (stats st) + 1)) @ ''): '' @ what @ [CHR 0x0A]\<rparr>)
   \<and> process_line parse st [] =
        st\<lparr>stats := (stats st)\<lparr>total := total (stats st) + 1,
                                empty_lines := empty_lines (stats st) + 1\<rparr>\<rparr>
   \<and> dedup_from parse st (before @ l # after) =
        dedup_from parse (process_line parse (dedup_from parse st before) l) after
   \<and> total (stats (dedup_lines parse ls)) = of_nat (length ls)
   \<and> parse_errors (stats (dedup_lines parse ls)) =
        of_nat (length (filter (\<lambda>l. l \<noteq> [] \<and> isl (parse l)) ls))
   \<and> empty_lines (stats (dedup_lines parse ls)) = of_nat (length (filter (\<lambda>l. l = []) ls))
   \<and> (\<exists>kept. subseq kept (filter (\<lambda>l. l \<noteq> [] \<and> \<not> isl (parse l)) ls)
        \<and> out (dedup_lines parse ls) = concat (map (\<lambda>l. l @ [CHR 0x0A]) kept))"
proof -
  have "\<exists>kept. subseq kept (filter (\<lambda>l. l \<noteq> [] \<and> \<not> isl (parse l)) ls)
        \<and> out (dedup_lines parse ls) = concat (map (\<lambda>l. l @ [CHR 0x0A]) kept)"
    using dedup_lines_out [of parse ls] unfolding emitted_def by blast
  then show ?thesis
    by (simp add: process_line_malformed process_line_empty dedup_from_append
        dedup_lines_total dedup_lines_parse_errors dedup_lines_empty_lines)
qed

theorem malformed_and_empty_lines_witness:
  \<open>''{"text":'' \<noteq> [] \<and> sample_parse ''{"text":'' = Inl ''parse error''
   \<and> process_line sample_parse engine_init ''{"text":'' =
        \<lparr>stats = \<lparr>total = 1, parsed = 0, written = 0, duplicates = 0,
                   parse_errors = 1, empty_lines = 0\<rparr>,
         seen_keys = {}, out = [],
         err = ''Skipping malformed JSON (line 1): parse error'' @ [CHR 0x0A]\<rparr>\<close>
proof -
  have p: \<open>sample_parse ''{"text":'' = Inl ''parse error''\<close> by code_simp
  have n: "to_string (unat (total (stats engine_init) + 1)) = ''1''"
    by code_simp
  have ne: \<open>''{"text":'' \<noteq> []\<close> by simp
  from malformed_and_empty_lines
    [of \<open>''{"text":''\<close> sample_parse \<open>''parse error''\<close> engine_init "[]" "[]" "[]"] p ne n
  show ?thesis by (simp add: engine_init_def Stats_init_def)
qed

section \<open>The set of observed keys\<close>

lemma process_line_finite:
  "finite (seen_keys st) \<Longrightarrow> finite (seen_keys (process_line parse st l))"
  by (rule process_line_cases [where l = l and parse = parse and st = st])
    (simp_all add: process_line_empty process_line_malformed process_line_duplicate
      process_line_written)

lemma process_line_grows:
  assumes "finite (seen_keys st)"
  shows "(seen_keys (process_line parse st l) = seen_keys st
          \<and> written (stats (process_line parse st l)) = written (stats st))
       \<or> (card (seen_keys (process_line parse st l)) = card (seen_keys st) + 1
          \<and> written (stats (process_line parse st l)) = written (stats st) + 1)"
proof (cases rule: process_line_cases [where l = l and parse = parse and st = st])
  case empty
  then show ?thesis by (simp add: process_line_empty)
next
  case (malformed what)
  then show ?thesis by (simp add: process_line_malformed)
next
  case (duplicate r)
  then show ?thesis by (simp add: process_line_duplicate)
next
  case (written r)
  with assms show ?thesis by (simp add: process_line_written)
qed

lemma process_line_card_word:
  assumes "finite (seen_keys st)" and "of_nat (card (seen_keys st)) = written (stats st)"
  shows "of_nat (card (seen_keys (process_line parse st l))) =
           written (stats (process_line parse st l))"
  using process_line_grows [OF assms(1), of parse l] assms(2) by auto

lemma process_line_card_le:
  assumes "finite (seen_keys st)"
  shows "card (seen_keys (process_line parse st l)) \<le> card (seen_keys st) + 1"
  using process_line_grows [OF assms, of parse l] by auto

lemma dedup_from_finite:
  "finite (seen_keys st) \<Longrightarrow> finite (seen_keys (dedup_from parse st ls))"
  by (induction ls arbitrary: st) (simp_all add: process_line_finite)

lemma dedup_from_card_word:
  "finite (seen_keys st) \<Longrightarrow> of_nat (card (seen_keys st)) = written (stats st) \<Longrightarrow>
   of_nat (card (seen_keys (dedup_from parse st ls))) = written (stats (dedup_from parse st ls))"
  by (induction ls arbitrary: st) (simp_all add: process_line_finite process_line_card_word)

lemma dedup_from_card_le:
  "finite (seen_keys st) \<Longrightarrow>
   card (seen_keys (dedup_from parse st ls)) \<le> card (seen_keys st) + length ls"
proof (induction ls arbitrary: st)
  case Nil
  show ?case by simp
next
  case (Cons l ls)
  from Cons.IH [OF process_line_finite [OF Cons.prems], of parse l]
    process_line_card_le [OF Cons.prems, of parse l]
  show ?case by simp
qed

lemma dedup_lines_finite: "finite (seen_keys (dedup_lines parse ls))"
  unfolding dedup_lines_def by (rule dedup_from_finite) (simp add: engine_init_def)

lemma dedup_lines_card_word:
  "of_nat (card (seen_keys (dedup_lines parse ls))) = written (stats (dedup_lines parse ls))"
  unfolding dedup_lines_def
  by (rule dedup_from_card_word) (simp_all add: engine_init_def Stats_init_def)

lemma dedup_lines_card_le: "card (seen_keys (dedup_lines parse ls)) \<le> length ls"
  using dedup_from_card_le [of engine_init parse ls]
  by (simp add: dedup_lines_def engine_init_def)

lemma dedup_lines_card_unat:
  assumes "length ls < 2 ^ 64"
  shows "card (seen_keys (dedup_lines parse ls)) = unat (written (stats (dedup_lines parse ls)))"
proof -
  have "card (seen_keys (dedup_lines parse ls)) < 2 ^ LENGTH(64)"
    using dedup_lines_card_le [of parse ls] assms by simp
  with dedup_lines_card_word [of parse ls] show ?thesis
    by (simp add: of_nat_inverse)
qed

text \<open>
  Claim C10. After the engine has processed any prefix \<open>take n ls\<close> of a stream, the
  set of observed keys is finite and its cardinality is the counter \<open>written\<close> (read
  modulo \<open>2^64\<close>, as the counter is; as a number when the stream has fewer than
  \<open>2^64\<close> lines). Processing one more line \<open>l\<close> never removes a key, and either leaves
  the set and \<open>written\<close> as they are or adds one key and adds one to \<open>written\<close>.
\<close>

theorem seen_keys_card_written:
  "(let s = dedup_lines parse (take n ls); s' = process_line parse s l
    in finite (seen_keys s)
       \<and> of_nat (card (seen_keys s)) = written (stats s)
       \<and> seen_keys s \<subseteq> seen_keys s'
       \<and> ((seen_keys s' = seen_keys s \<and> written (stats s') = written (stats s))
          \<or> (card (seen_keys s') = card (seen_keys s) + 1
             \<and> written (stats s') = written (stats s) + 1)))
   \<and> (length ls < 2 ^ 64 \<longrightarrow>
        card (seen_keys (dedup_lines parse (take n ls)))
          = unat (written (stats (dedup_lines parse (take n ls)))))"
proof -
  let ?s = "dedup_lines parse (take n ls)"
  have bound: "length ls < 2 ^ 64 \<longrightarrow> length (take n ls) < 2 ^ 64" by (auto simp: min_def)
  have fin: "finite (seen_keys ?s)" by (rule dedup_lines_finite)
  have word: "of_nat (card (seen_keys ?s)) = written (stats ?s)" by (rule dedup_lines_card_word)
  have mono: "seen_keys ?s \<subseteq> seen_keys (process_line parse ?s l)"
    by (rule process_line_seen_mono)
  note grows = process_line_grows [OF fin, where parse = parse and l = l]
  have nat: "length ls < 2 ^ 64 \<longrightarrow> card (seen_keys ?s) = unat (written (stats ?s))"
    using bound dedup_lines_card_unat [where ls = "take n ls" and parse = parse] by blast
  from fin word mono grows nat show ?thesis unfolding Let_def by blast
qed

theorem seen_keys_card_written_witness:
  \<open>length [''{"id":"x"}'', ''{"text":"id|x"}'', ''{}''] < 2 ^ 64
   \<and> card (seen_keys (dedup_lines sample_parse (take 3 [''{"id":"x"}'', ''{"text":"id|x"}'', ''{}''])))
       = unat (written (stats (dedup_lines sample_parse
           (take 3 [''{"id":"x"}'', ''{"text":"id|x"}'', ''{}'']))))
   \<and> unat (written (stats (dedup_lines sample_parse
           (take 3 [''{"id":"x"}'', ''{"text":"id|x"}'', ''{}''])))) = 2\<close>
proof -
  have w: \<open>written (stats (dedup_lines sample_parse
           (take 3 [''{"id":"x"}'', ''{"text":"id|x"}'', ''{}'']))) = 2\<close>
    by code_simp
  have l: \<open>length [''{"id":"x"}'', ''{"text":"id|x"}'', ''{}''] < 2 ^ 64\<close> by simp
  from seen_keys_card_written [of sample_parse 3 \<open>[''{"id":"x"}'', ''{"text":"id|x"}'', ''{}'']\<close>] l w
  show ?thesis by simp
qed

section \<open>Keys\<close>

lemma string_field_lacking: "find_json r key = None \<Longrightarrow> string_field r key = None"
  by (simp add: string_field_def)

lemma lacks_fields_build_key: "lacks_fields r \<Longrightarrow> build_key r = []"
  by (simp add: lacks_fields_def build_key_def text_norm_def title_norm_def url_norm_def
      string_field_lacking)

lemma record_key_build_key: "build_key r \<noteq> [] \<Longrightarrow> record_key r n = build_key r"
  by (simp add: record_key_def)

lemma record_key_fallback:
  "build_key r = [] \<Longrightarrow> record_key r n = ''line|'' @ to_string (unat n)"
  by (simp add: record_key_def)

lemma fallback_key_inj: "''line|'' @ to_string a = ''line|'' @ to_string b \<Longrightarrow> a = b"
  by (simp add: to_string_inj)

lemma later_line_duplicate:
  assumes "l1 \<noteq> []" "parse l1 = Inr r1" "l2 \<noteq> []" "parse l2 = Inr r2"
    and "build_key r1 = build_key r2" "build_key r1 \<noteq> []"
  shows "process_line parse (dedup_from parse st (l1 # between)) l2 =
     (dedup_from parse st (l1 # between))
       \<lparr>stats := (stats (dedup_from parse st (l1 # between)))
          \<lparr>total := total (stats (dedup_from parse st (l1 # between))) + 1,
           parsed := parsed (stats (dedup_from parse st (l1 # between))) + 1,
           duplicates := duplicates (stats (dedup_from parse st (l1 # between))) + 1\<rparr>\<rparr>"
proof -
  let ?s = "dedup_from parse st (l1 # between)"
  have "build_key r1 \<in> seen_keys (process_line parse st l1)"
    using process_line_key_seen [where parse = parse and l = l1 and r = r1 and st = st] assms(1,2,6)
    by (simp add: record_key_build_key)
  then have "build_key r1 \<in> seen_keys ?s"
    using dedup_from_seen_mono [of "process_line parse st l1" parse between] by auto
  then have "record_key r2 (total (stats ?s) + 1) \<in> seen_keys ?s"
    using assms(5,6) by (simp add: record_key_build_key)
  with assms(3,4) show ?thesis
    by (rule process_line_duplicate [where parse = parse and l = l2 and r = r2])
qed

lemma both_lines_written:
  assumes "l1 \<noteq> []" "parse l1 = Inr r1" "l2 \<noteq> []" "parse l2 = Inr r2"
    and "build_key r1 \<noteq> []" "build_key r2 \<noteq> []" "build_key r1 \<noteq> build_key r2"
    and "build_key r1 \<notin> seen_keys st" "build_key r2 \<notin> seen_keys st"
  shows "dedup_from parse st [l1, l2] =
     st\<lparr>stats := (stats st)\<lparr>total := total (stats st) + 2,
                             parsed := parsed (stats st) + 2,
                             written := written (stats st) + 2\<rparr>,
        seen_keys := insert (build_key r2) (insert (build_key r1) (seen_keys st)),
        out := out st @ l1 @ [CHR 0x0A] @ l2 @ [CHR 0x0A]\<rparr>"
proof -
  let ?s = "process_line parse st l1"
  have s: "?s = st\<lparr>stats := (stats st)\<lparr>total := total (stats st) + 1,
                             parsed := parsed (stats st) + 1,
                             written := written (stats st) + 1\<rparr>,
        seen_keys := insert (build_key r1) (seen_keys st),
        out := out st @ l1 @ [CHR 0x0A]\<rparr>"
    using process_line_written [where parse = parse and l = l1 and r = r1 and st = st] assms(1,2,5,8)
    by (simp add: record_key_build_key)
  have "record_key r2 (total (stats ?s) + 1) \<notin> seen_keys ?s"
    using assms(6,7,9) by (simp add: s record_key_build_key)
  with process_line_written [where parse = parse and l = l2 and r = r2 and st = "?s"] assms(3,4,6)
  show ?thesis by (simp add: s record_key_build_key)
qed

lemma build_key_short_text:
  "text_norm r \<noteq> [] \<Longrightarrow> length (text_norm r) < 80 \<Longrightarrow> url_norm r \<noteq> [] \<Longrightarrow>
   build_key r = text_norm r @ ''|url|'' @ url_norm r"
  by (simp add: build_key_def)

lemma build_key_long_text: "80 \<le> length (text_norm r) \<Longrightarrow> build_key r = text_norm r"
  by (auto simp: build_key_def)


lemma dedup_from_last:
  "dedup_from parse st (l1 # between @ [l2]) =
     process_line parse (dedup_from parse st (l1 # between)) l2"
  using dedup_from_snoc [of parse st "l1 # between" l2] by simp

lemma same_key_outcome:
  assumes "l1 \<noteq> []" "parse l1 = Inr r1" "l2 \<noteq> []" "parse l2 = Inr r2"
    and "build_key r1 = build_key r2" "build_key r1 \<noteq> []"
  shows "out (dedup_from parse st (l1 # between @ [l2])) = out (dedup_from parse st (l1 # between))
    \<and> written (stats (dedup_from parse st (l1 # between @ [l2])))
        = written (stats (dedup_from parse st (l1 # between)))
    \<and> duplicates (stats (dedup_from parse st (l1 # between @ [l2])))
        = duplicates (stats (dedup_from parse st (l1 # between))) + 1"
  unfolding dedup_from_last later_line_duplicate [OF assms] by simp


lemma fallback_step:
  assumes nokey: "\<forall>r. parse l = Inr r \<longrightarrow> build_key r = []"
    and inv: "\<forall>k\<in>seen_keys st. \<exists>n. n \<le> unat (total (stats st)) \<and> k = ''line|'' @ to_string n"
    and bound: "unat (total (stats st)) + 1 < 2 ^ 64"
  shows "duplicates (stats (process_line parse st l)) = duplicates (stats st)
    \<and> out (process_line parse st l)
        = out st @ emitted (filter (\<lambda>l. l \<noteq> [] \<and> \<not> isl (parse l)) [l])
    \<and> (\<forall>k\<in>seen_keys (process_line parse st l).
          \<exists>n. n \<le> unat (total (stats (process_line parse st l))) \<and> k = ''line|'' @ to_string n)
    \<and> unat (total (stats (process_line parse st l))) = unat (total (stats st)) + 1"
proof -
  have t: "unat (total (stats st) + 1) = unat (total (stats st)) + 1"
    using bound by (rule unat_total_step)
  from inv have inv': "\<forall>k\<in>seen_keys st. \<exists>n. n \<le> unat (total (stats st)) + 1
      \<and> k = ''line|'' @ to_string n"
    by (meson le_SucI Suc_eq_plus1 le_add1 le_trans)
  show ?thesis
  proof (cases "l = []")
    case True
    with inv' t show ?thesis by (simp add: process_line_empty)
  next
    case ne: False
    show ?thesis
    proof (cases "parse l")
      case (Inl what)
      with ne inv' t show ?thesis by (simp add: process_line_malformed)
    next
      case (Inr r)
      with nokey have "build_key r = []" by simp
      then have key: "record_key r (total (stats st) + 1)
          = ''line|'' @ to_string (unat (total (stats st)) + 1)"
        by (simp add: record_key_fallback t)
      have fresh: "record_key r (total (stats st) + 1) \<notin> seen_keys st"
      proof
        assume "record_key r (total (stats st) + 1) \<in> seen_keys st"
        with inv obtain n where n: "n \<le> unat (total (stats st))"
          and "record_key r (total (stats st) + 1) = ''line|'' @ to_string n" by blast
        with key have "''line|'' @ to_string (unat (total (stats st)) + 1) = ''line|'' @ to_string n"
          by simp
        then have "unat (total (stats st)) + 1 = n" by (rule fallback_key_inj)
        with n show False by simp
      qed
      have w: "process_line parse st l =
         st\<lparr>stats := (stats st)\<lparr>total := total (stats st) + 1,
                             parsed := parsed (stats st) + 1,
                             written := written (stats st) + 1\<rparr>,
            seen_keys := insert (record_key r (total (stats st) + 1)) (seen_keys st),
            out := out st @ l @ [CHR 0x0A]\<rparr>"
        using ne Inr fresh by (rule process_line_written [where parse = parse and l = l and r = r])
      have "\<exists>n. n \<le> unat (total (stats st)) + 1
          \<and> record_key r (total (stats st) + 1) = ''line|'' @ to_string n"
        using key by blast
      with inv' ne Inr t show ?thesis by (simp add: w)
    qed
  qed
qed

lemma fallback_stream:
  assumes "\<forall>l\<in>set ls. \<forall>r. parse l = Inr r \<longrightarrow> build_key r = []"
    and "\<forall>k\<in>seen_keys st. \<exists>n. n \<le> unat (total (stats st)) \<and> k = ''line|'' @ to_string n"
    and "unat (total (stats st)) + length ls < 2 ^ 64"
  shows "duplicates (stats (dedup_from parse st ls)) = duplicates (stats st)
    \<and> out (dedup_from parse st ls)
        = out st @ emitted (filter (\<lambda>l. l \<noteq> [] \<and> \<not> isl (parse l)) ls)"
  using assms
proof (induction ls arbitrary: st)
  case Nil
  show ?case by simp
next
  case (Cons l ls)
  let ?s = "process_line parse st l"
  let ?good = "\<lambda>l. l \<noteq> [] \<and> \<not> isl (parse l)"
  from Cons.prems(1) have nokey: "\<forall>r. parse l = Inr r \<longrightarrow> build_key r = []" by simp
  from Cons.prems(3) have bound: "unat (total (stats st)) + 1 < 2 ^ 64" by simp
  from fallback_step [where parse = parse and l = l and st = st, OF nokey Cons.prems(2) bound]
  have d: "duplicates (stats ?s) = duplicates (stats st)"
    and o: "out ?s = out st @ emitted (filter ?good [l])"
    and i: "\<forall>k\<in>seen_keys ?s. \<exists>n. n \<le> unat (total (stats ?s)) \<and> k = ''line|'' @ to_string n"
    and t: "unat (total (stats ?s)) = unat (total (stats st)) + 1" by blast+
  from Cons.prems(1) have rest: "\<forall>l\<in>set ls. \<forall>r. parse l = Inr r \<longrightarrow> build_key r = []" by simp
  from Cons.prems(3) t have b: "unat (total (stats ?s)) + length ls < 2 ^ 64" by simp
  from Cons.IH [where st = "?s", OF rest i b]
  have "duplicates (stats (dedup_from parse ?s ls)) = duplicates (stats ?s)"
    and "out (dedup_from parse ?s ls) = out ?s @ emitted (filter ?good ls)" by blast+
  moreover have "emitted (filter ?good (l # ls)) = emitted (filter ?good [l]) @ emitted (filter ?good ls)"
    by simp
  ultimately show ?case by (simp only: dedup_from.simps d o append_assoc)
qed

lemma fallback_stream_lines:
  assumes "\<forall>l\<in>set ls. \<forall>r. parse l = Inr r \<longrightarrow> build_key r = []" and "length ls < 2 ^ 64"
  shows "duplicates (stats (dedup_lines parse ls)) = 0
    \<and> out (dedup_lines parse ls) = emitted (filter (\<lambda>l. l \<noteq> [] \<and> \<not> isl (parse l)) ls)"
  using fallback_stream [where ls = ls and parse = parse and st = engine_init] assms
  by (simp add: dedup_lines_def engine_init_def Stats_init_def)

text \<open>
  The fourth and fifth rule of the key derivation as the code has them: when text,
  title and URL give nothing, a string \<open>id\<close> gives the key \<open>id|\<close> followed by the
  identifier as it is, and a record without a string \<open>id\<close> gives the empty key, which
  the engine replaces by \<open>line|\<close> and the line number.
\<close>

lemma build_key_id_rule:
  "text_norm r = [] \<Longrightarrow> title_norm r = [] \<Longrightarrow> url_norm r = [] \<Longrightarrow>
   build_key r = (case string_field r ''id'' of Some s \<Rightarrow> ''id|'' @ s | None \<Rightarrow> [])"
  by (simp add: build_key_def)

lemma record_key_no_id:
  "text_norm r = [] \<Longrightarrow> title_norm r = [] \<Longrightarrow> url_norm r = [] \<Longrightarrow>
   string_field r ''id'' = None \<Longrightarrow> record_key r n = ''line|'' @ to_string (unat n)"
  by (simp add: build_key_id_rule record_key_fallback)

text \<open>
  Claim C2 says that an \<open>id\<close> that is the empty string gives no key, so that the
  record gets the positional key. The code does not test the identifier for emptiness
  (it does test the normalised text, title and URL): the record \<open>{"id":""}\<close> gets the
  key \<open>id|\<close> on whatever line it stands, here line 2, and of two such lines the
  second is dropped as a duplicate.
\<close>

theorem empty_id_key_is_not_positional:
  \<open>build_key (JObject [(''id'', JString [])]) = ''id|''
   \<and> record_key (JObject [(''id'', JString [])]) 2 = ''id|''
   \<and> ''line|'' @ to_string 2 = ''line|2''
   \<and> sample_parse ''{"id":""}'' = Inr (JObject [(''id'', JString [])])
   \<and> out (dedup_lines sample_parse [''{"id":""}'', ''{"id":""}'']) = ''{"id":""}'' @ [CHR 0x0A]
   \<and> written (stats (dedup_lines sample_parse [''{"id":""}'', ''{"id":""}''])) = 1
   \<and> duplicates (stats (dedup_lines sample_parse [''{"id":""}'', ''{"id":""}''])) = 1\<close>
proof (intro conjI)
  show "build_key (JObject [(''id'', JString [])]) = ''id|''" by code_simp
  show "record_key (JObject [(''id'', JString [])]) 2 = ''id|''" by code_simp
  show "''line|'' @ to_string 2 = ''line|2''" by code_simp
  show \<open>sample_parse ''{"id":""}'' = Inr (JObject [(''id'', JString [])])\<close> by code_simp
  show \<open>out (dedup_lines sample_parse [''{"id":""}'', ''{"id":""}'']) = ''{"id":""}'' @ [CHR 0x0A]\<close>
    by code_simp
  show \<open>written (stats (dedup_lines sample_parse [''{"id":""}'', ''{"id":""}''])) = 1\<close>
    by code_simp
  show \<open>duplicates (stats (dedup_lines sample_parse [''{"id":""}'', ''{"id":""}''])) = 1\<close>
    by code_simp
qed

lemma sample_short_a: "sample_parse short_a_line = Inr short_a_record"
  by code_simp

lemma sample_short_b: "sample_parse short_b_line = Inr short_b_record"
  by code_simp

lemma sample_long_a: "sample_parse long_a_line = Inr long_a_record"
  by code_simp

lemma sample_long_b: "sample_parse long_b_line = Inr long_b_record"
  by code_simp

text \<open>
  Claim C3. Two records have a normalised text when rule 1 of the key derivation
  applies to them, that is when \<open>text_norm\<close> is not empty. If two such records have
  the same normalised text, shorter than 80 bytes, and different non-empty normalised
  URLs, then \<open>build_key\<close> gives them different keys, and the engine writes both when it
  meets them one after the other in a state where neither key has been observed. If two
  records have the same normalised text of 80 bytes or more, then \<open>build_key\<close> gives
  them the same key whatever their URLs are, and wherever the second comes after the
  first in a stream (\<open>between\<close> are the lines in between, \<open>st\<close> the state before the
  first) the second is counted as a duplicate and not written.
\<close>

theorem short_text_url_disambiguation:
  "(text_norm r1 = text_norm r2 \<and> text_norm r1 \<noteq> [] \<and> length (text_norm r1) < 80
      \<and> url_norm r1 \<noteq> [] \<and> url_norm r2 \<noteq> [] \<and> url_norm r1 \<noteq> url_norm r2 \<longrightarrow>
        build_key r1 \<noteq> build_key r2
        \<and> (l1 \<noteq> [] \<and> parse l1 = Inr r1 \<and> l2 \<noteq> [] \<and> parse l2 = Inr r2
             \<and> build_key r1 \<notin> seen_keys st \<and> build_key r2 \<notin> seen_keys st \<longrightarrow>
           out (dedup_from parse st [l1, l2]) = out st @ l1 @ [CHR 0x0A] @ l2 @ [CHR 0x0A]
           \<and> written (stats (dedup_from parse st [l1, l2])) = written (stats st) + 2
           \<and> duplicates (stats (dedup_from parse st [l1, l2])) = duplicates (stats st)))
   \<and> (text_norm r1 = text_norm r2 \<and> 80 \<le> length (text_norm r1) \<longrightarrow>
        build_key r1 = build_key r2
        \<and> (l1 \<noteq> [] \<and> parse l1 = Inr r1 \<and> l2 \<noteq> [] \<and> parse l2 = Inr r2 \<longrightarrow>
           out (dedup_from parse st (l1 # between @ [l2]))
             = out (dedup_from parse st (l1 # between))
           \<and> written (stats (dedup_from parse st (l1 # between @ [l2])))
             = written (stats (dedup_from parse st (l1 # between)))
           \<and> duplicates (stats (dedup_from parse st (l1 # between @ [l2])))
             = duplicates (stats (dedup_from parse st (l1 # between))) + 1))"
proof (intro conjI impI)
  assume h: "text_norm r1 = text_norm r2 \<and> text_norm r1 \<noteq> [] \<and> length (text_norm r1) < 80
      \<and> url_norm r1 \<noteq> [] \<and> url_norm r2 \<noteq> [] \<and> url_norm r1 \<noteq> url_norm r2"
  from h have t: "text_norm r2 = text_norm r1" by (elim conjE) (rule sym)
  from h have t1: "text_norm r1 \<noteq> []" by (elim conjE)
  from h have t2: "length (text_norm r1) < 80" by (elim conjE)
  from h have u1: "url_norm r1 \<noteq> []" by (elim conjE)
  from h have u2: "url_norm r2 \<noteq> []" by (elim conjE)
  from h have u: "url_norm r1 \<noteq> url_norm r2" by (elim conjE)
  have k1: "build_key r1 = text_norm r1 @ ''|url|'' @ url_norm r1"
    using t1 t2 u1 by (rule build_key_short_text)
  have t1': "text_norm r2 \<noteq> []" using t1 by (simp add: t)
  have t2': "length (text_norm r2) < 80" using t2 by (simp add: t)
  have "build_key r2 = text_norm r2 @ ''|url|'' @ url_norm r2"
    using t1' t2' u2 by (rule build_key_short_text)
  then have k2: "build_key r2 = text_norm r1 @ ''|url|'' @ url_norm r2" by (simp only: t)
  from u show ne: "build_key r1 \<noteq> build_key r2" by (simp add: k1 k2)
  assume e: "l1 \<noteq> [] \<and> parse l1 = Inr r1 \<and> l2 \<noteq> [] \<and> parse l2 = Inr r2
             \<and> build_key r1 \<notin> seen_keys st \<and> build_key r2 \<notin> seen_keys st"
  have n1: "build_key r1 \<noteq> []" and n2: "build_key r2 \<noteq> []" by (simp_all add: k1 k2)
  have w: "dedup_from parse st [l1, l2] =
     st\<lparr>stats := (stats st)\<lparr>total := total (stats st) + 2,
                             parsed := parsed (stats st) + 2,
                             written := written (stats st) + 2\<rparr>,
        seen_keys := insert (build_key r2) (insert (build_key r1) (seen_keys st)),
        out := out st @ l1 @ [CHR 0x0A] @ l2 @ [CHR 0x0A]\<rparr>"
    using e n1 n2 ne by (intro both_lines_written) simp_all
  show "out (dedup_from parse st [l1, l2]) = out st @ l1 @ [CHR 0x0A] @ l2 @ [CHR 0x0A]"
    and "written (stats (dedup_from parse st [l1, l2])) = written (stats st) + 2"
    and "duplicates (stats (dedup_from parse st [l1, l2])) = duplicates (stats st)"
    unfolding w by simp_all
next
  assume h: "text_norm r1 = text_norm r2 \<and> 80 \<le> length (text_norm r1)"
  from h have t: "text_norm r2 = text_norm r1" by (elim conjE) (rule sym)
  from h have t1: "80 \<le> length (text_norm r1)" by (elim conjE)
  have k1: "build_key r1 = text_norm r1" using t1 by (rule build_key_long_text)
  have t1': "80 \<le> length (text_norm r2)" using t1 by (simp add: t)
  have "build_key r2 = text_norm r2" using t1' by (rule build_key_long_text)
  then have k2: "build_key r2 = text_norm r1" by (simp only: t)
  show eq: "build_key r1 = build_key r2" by (simp add: k1 k2)
  assume e: "l1 \<noteq> [] \<and> parse l1 = Inr r1 \<and> l2 \<noteq> [] \<and> parse l2 = Inr r2"
  from t1 have n: "build_key r1 \<noteq> []" by (auto simp: k1)
  from e eq n have o: "out (dedup_from parse st (l1 # between @ [l2]))
        = out (dedup_from parse st (l1 # between))
    \<and> written (stats (dedup_from parse st (l1 # between @ [l2])))
        = written (stats (dedup_from parse st (l1 # between)))
    \<and> duplicates (stats (dedup_from parse st (l1 # between @ [l2])))
        = duplicates (stats (dedup_from parse st (l1 # between))) + 1"
    by (intro same_key_outcome [where ?r1.0 = r1 and ?r2.0 = r2]) simp_all
  from o show "out (dedup_from parse st (l1 # between @ [l2]))
             = out (dedup_from parse st (l1 # between))" by simp
  from o show "written (stats (dedup_from parse st (l1 # between @ [l2])))
             = written (stats (dedup_from parse st (l1 # between)))" by simp
  from o show "duplicates (stats (dedup_from parse st (l1 # between @ [l2])))
             = duplicates (stats (dedup_from parse st (l1 # between))) + 1" by simp
qed

theorem short_text_url_disambiguation_witness:
  "text_norm short_a_record = text_norm short_b_record \<and> text_norm short_a_record \<noteq> []
   \<and> length (text_norm short_a_record) < 80
   \<and> url_norm short_a_record \<noteq> [] \<and> url_norm short_b_record \<noteq> []
   \<and> url_norm short_a_record \<noteq> url_norm short_b_record
   \<and> short_a_line \<noteq> [] \<and> sample_parse short_a_line = Inr short_a_record
   \<and> short_b_line \<noteq> [] \<and> sample_parse short_b_line = Inr short_b_record
   \<and> build_key short_a_record \<notin> seen_keys engine_init
   \<and> build_key short_b_record \<notin> seen_keys engine_init
   \<and> build_key short_a_record \<noteq> build_key short_b_record
   \<and> out (dedup_from sample_parse engine_init [short_a_line, short_b_line])
       = out engine_init @ short_a_line @ [CHR 0x0A] @ short_b_line @ [CHR 0x0A]
   \<and> text_norm long_a_record = text_norm long_b_record
   \<and> 80 \<le> length (text_norm long_a_record)
   \<and> long_a_line \<noteq> [] \<and> sample_parse long_a_line = Inr long_a_record
   \<and> long_b_line \<noteq> [] \<and> sample_parse long_b_line = Inr long_b_record
   \<and> build_key long_a_record = build_key long_b_record
   \<and> out (dedup_from sample_parse engine_init (long_a_line # [short_a_line] @ [long_b_line]))
       = out (dedup_from sample_parse engine_init (long_a_line # [short_a_line]))
   \<and> duplicates (stats (dedup_from sample_parse engine_init
         (long_a_line # [short_a_line] @ [long_b_line])))
       = duplicates (stats (dedup_from sample_parse engine_init
           (long_a_line # [short_a_line]))) + 1"
proof -
  have s1: "text_norm short_a_record = text_norm short_b_record" by code_simp
  have s2: "text_norm short_a_record \<noteq> []" by code_simp
  have s3: "length (text_norm short_a_record) < 80" by code_simp
  have s4: "url_norm short_a_record \<noteq> []" by code_simp
  have s5: "url_norm short_b_record \<noteq> []" by code_simp
  have s6: "url_norm short_a_record \<noteq> url_norm short_b_record" by code_simp
  have s7: "short_a_line \<noteq> []" by code_simp
  have s8: "short_b_line \<noteq> []" by code_simp
  have s9: "build_key short_a_record \<notin> seen_keys engine_init" by code_simp
  have s10: "build_key short_b_record \<notin> seen_keys engine_init" by code_simp
  have l1: "text_norm long_a_record = text_norm long_b_record" by code_simp
  have l2: "80 \<le> length (text_norm long_a_record)" by code_simp
  have l3: "long_a_line \<noteq> []" by code_simp
  have l4: "long_b_line \<noteq> []" by code_simp
  note short = short_text_url_disambiguation
    [where ?r1.0 = short_a_record and ?r2.0 = short_b_record and ?l1.0 = short_a_line
      and ?l2.0 = short_b_line and parse = sample_parse and st = engine_init]
  note long = short_text_url_disambiguation
    [where ?r1.0 = long_a_record and ?r2.0 = long_b_record and ?l1.0 = long_a_line
      and ?l2.0 = long_b_line and parse = sample_parse and st = engine_init
      and between = "[short_a_line]"]
  from short s1 s2 s3 s4 s5 s6 s7 s8 s9 s10 sample_short_a sample_short_b
  have a: "build_key short_a_record \<noteq> build_key short_b_record
     \<and> out (dedup_from sample_parse engine_init [short_a_line, short_b_line])
       = out engine_init @ short_a_line @ [CHR 0x0A] @ short_b_line @ [CHR 0x0A]"
    by blast
  from long l1 l2 l3 l4 sample_long_a sample_long_b
  have b: "build_key long_a_record = build_key long_b_record
   \<and> out (dedup_from sample_parse engine_init (long_a_line # [short_a_line] @ [long_b_line]))
       = out (dedup_from sample_parse engine_init (long_a_line # [short_a_line]))
   \<and> duplicates (stats (dedup_from sample_parse engine_init
         (long_a_line # [short_a_line] @ [long_b_line])))
       = duplicates (stats (dedup_from sample_parse engine_init
           (long_a_line # [short_a_line]))) + 1"
    by blast
  from s1 s2 s3 s4 s5 s6 s7 s8 s9 s10 l1 l2 l3 l4 sample_short_a sample_short_b
    sample_long_a sample_long_b a b
  show ?thesis by blast
qed

lemma sample_text_idx: \<open>sample_parse ''{"text":"id|x"}'' = Inr (JObject [(''text'', JString ''id|x'')])\<close>
  by code_simp

lemma sample_id_x: \<open>sample_parse ''{"id":"x"}'' = Inr (JObject [(''id'', JString ''x'')])\<close>
  by code_simp

lemma build_key_text_idx: "build_key (JObject [(''text'', JString ''id|x'')]) = ''id|x''"
  by code_simp

lemma build_key_id_x: "build_key (JObject [(''id'', JString ''x'')]) = ''id|x''"
  by code_simp

text \<open>
  Claim C9. Key derivation is not injective across its rules: the record whose only
  field is \<open>text\<close> with value \<open>id|x\<close> and the record whose only field is \<open>id\<close> with
  value \<open>x\<close> both get the key \<open>id|x\<close>. Whichever of the two comes later in a
  stream, with any lines \<open>between\<close> them, is counted as a duplicate and not written.
\<close>

theorem key_collision_across_rules:
  "build_key (JObject [(''text'', JString ''id|x'')]) = ''id|x''
   \<and> build_key (JObject [(''id'', JString ''x'')]) = ''id|x''
   \<and> (l1 \<noteq> [] \<and> l2 \<noteq> []
        \<and> (parse l1 = Inr (JObject [(''text'', JString ''id|x'')])
              \<and> parse l2 = Inr (JObject [(''id'', JString ''x'')])
            \<or> parse l1 = Inr (JObject [(''id'', JString ''x'')])
              \<and> parse l2 = Inr (JObject [(''text'', JString ''id|x'')])) \<longrightarrow>
        out (dedup_from parse st (l1 # between @ [l2]))
          = out (dedup_from parse st (l1 # between))
        \<and> written (stats (dedup_from parse st (l1 # between @ [l2])))
          = written (stats (dedup_from parse st (l1 # between)))
        \<and> duplicates (stats (dedup_from parse st (l1 # between @ [l2])))
          = duplicates (stats (dedup_from parse st (l1 # between))) + 1)"
proof (intro conjI impI)
  show "build_key (JObject [(''text'', JString ''id|x'')]) = ''id|x''"
    by (rule build_key_text_idx)
  show "build_key (JObject [(''id'', JString ''x'')]) = ''id|x''"
    by (rule build_key_id_x)
  assume h: "l1 \<noteq> [] \<and> l2 \<noteq> []
        \<and> (parse l1 = Inr (JObject [(''text'', JString ''id|x'')])
              \<and> parse l2 = Inr (JObject [(''id'', JString ''x'')])
            \<or> parse l1 = Inr (JObject [(''id'', JString ''x'')])
              \<and> parse l2 = Inr (JObject [(''text'', JString ''id|x'')]))"
  then obtain r1 r2 where p: "l1 \<noteq> []" "parse l1 = Inr r1" "l2 \<noteq> []" "parse l2 = Inr r2"
    and k: "build_key r1 = ''id|x''" "build_key r2 = ''id|x''"
    using build_key_text_idx build_key_id_x by blast
  from k have "build_key r1 = build_key r2" and "build_key r1 \<noteq> []" by simp_all
  with p have o: "out (dedup_from parse st (l1 # between @ [l2]))
        = out (dedup_from parse st (l1 # between))
    \<and> written (stats (dedup_from parse st (l1 # between @ [l2])))
        = written (stats (dedup_from parse st (l1 # between)))
    \<and> duplicates (stats (dedup_from parse st (l1 # between @ [l2])))
        = duplicates (stats (dedup_from parse st (l1 # between))) + 1"
    by (intro same_key_outcome [where ?r1.0 = r1 and ?r2.0 = r2])
  from o show "out (dedup_from parse st (l1 # between @ [l2]))
          = out (dedup_from parse st (l1 # between))" by simp
  from o show "written (stats (dedup_from parse st (l1 # between @ [l2])))
          = written (stats (dedup_from parse st (l1 # between)))" by simp
  from o show "duplicates (stats (dedup_from parse st (l1 # between @ [l2])))
          = duplicates (stats (dedup_from parse st (l1 # between))) + 1" by simp
qed

theorem key_collision_across_rules_witness:
  \<open>''{"text":"id|x"}'' \<noteq> [] \<and> ''{"id":"x"}'' \<noteq> []
   \<and> sample_parse ''{"text":"id|x"}'' = Inr (JObject [(''text'', JString ''id|x'')])
   \<and> sample_parse ''{"id":"x"}'' = Inr (JObject [(''id'', JString ''x'')])
   \<and> out (dedup_from sample_parse engine_init (''{"text":"id|x"}'' # [] @ [''{"id":"x"}'']))
       = ''{"text":"id|x"}'' @ [CHR 0x0A]
   \<and> duplicates (stats (dedup_from sample_parse engine_init
         (''{"text":"id|x"}'' # [] @ [''{"id":"x"}'']))) = 1\<close>
proof -
  have o: \<open>out (dedup_from sample_parse engine_init (''{"text":"id|x"}'' # []))
      = ''{"text":"id|x"}'' @ [CHR 0x0A]\<close> by code_simp
  have d: \<open>duplicates (stats (dedup_from sample_parse engine_init (''{"text":"id|x"}'' # []))) = 0\<close>
    by code_simp
  have n: \<open>''{"text":"id|x"}'' \<noteq> [] \<and> ''{"id":"x"}'' \<noteq> []\<close> by simp
  from key_collision_across_rules
    [where ?l1.0 = \<open>''{"text":"id|x"}''\<close> and ?l2.0 = \<open>''{"id":"x"}''\<close>
      and parse = sample_parse and st = engine_init and between = "[]"]
    n sample_text_idx sample_id_x
  have \<open>out (dedup_from sample_parse engine_init (''{"text":"id|x"}'' # [] @ [''{"id":"x"}'']))
          = out (dedup_from sample_parse engine_init (''{"text":"id|x"}'' # []))
     \<and> duplicates (stats (dedup_from sample_parse engine_init
          (''{"text":"id|x"}'' # [] @ [''{"id":"x"}''])))
          = duplicates (stats (dedup_from sample_parse engine_init (''{"text":"id|x"}'' # []))) + 1\<close>
    by blast
  with o d n sample_text_idx sample_id_x show ?thesis by simp
qed

lemma sample_empty_object: "sample_parse ''{}'' = Inr (JObject [])"
  by code_simp

lemma sample_n_object: \<open>sample_parse ''{"n":1}'' = Inr (JObject [(''n'', JNumber 1)])\<close>
  by code_simp

lemma line_total:
  assumes "i < length ls" and "length ls < 2 ^ 64"
  shows "unat (total (stats (dedup_lines parse (take i ls))) + 1) = Suc i"
proof -
  from assms have "Suc i < 2 ^ 64" by simp
  then have "unat (of_nat (Suc i) :: 64 word) = Suc i" by (rule unat_of_nat_line)
  moreover from assms(1) have "length (take i ls) = i" by simp
  then have "total (stats (dedup_lines parse (take i ls))) + 1 = (of_nat (Suc i) :: 64 word)"
    by (simp add: dedup_lines_total)
  ultimately show ?thesis by (simp only:)
qed

text \<open>
  Claim C5. In a stream of fewer than \<open>2^64\<close> lines (the range of the counter
  \<open>stats.total\<close> that numbers them), two records at different positions \<open>i < j\<close>
  (counted from 0) that have none of the fields text, title, url and id get the keys
  \<open>line|\<close> followed by \<open>i + 1\<close> and by \<open>j + 1\<close> in decimal, and these differ: the
  engine hands \<open>record_key\<close> the counter \<open>total\<close> of the state before the line, plus
  one. And in a stream where every record is of this kind, no line is counted as a
  duplicate: every non-empty line that parses is written.
\<close>

theorem fallback_keys_distinct:
  "(length ls < 2 ^ 64 \<and> i < j \<and> j < length ls \<and> lacks_fields ri \<and> lacks_fields rj \<longrightarrow>
      record_key ri (total (stats (dedup_lines parse (take i ls))) + 1)
        = ''line|'' @ to_string (i + 1)
      \<and> record_key rj (total (stats (dedup_lines parse (take j ls))) + 1)
        = ''line|'' @ to_string (j + 1)
      \<and> record_key ri (total (stats (dedup_lines parse (take i ls))) + 1)
        \<noteq> record_key rj (total (stats (dedup_lines parse (take j ls))) + 1))
   \<and> (length ls < 2 ^ 64 \<and> (\<forall>l\<in>set ls. \<forall>r. parse l = Inr r \<longrightarrow> lacks_fields r) \<longrightarrow>
      duplicates (stats (dedup_lines parse ls)) = 0
      \<and> out (dedup_lines parse ls)
        = concat (map (\<lambda>l. l @ [CHR 0x0A]) (filter (\<lambda>l. l \<noteq> [] \<and> \<not> isl (parse l)) ls)))"
proof (intro conjI impI)
  assume h: "length ls < 2 ^ 64 \<and> i < j \<and> j < length ls \<and> lacks_fields ri \<and> lacks_fields rj"
  then have ti: "unat (total (stats (dedup_lines parse (take i ls))) + 1) = Suc i"
    and tj: "unat (total (stats (dedup_lines parse (take j ls))) + 1) = Suc j"
    by (simp_all add: line_total)
  from h have ki: "build_key ri = []" and kj: "build_key rj = []"
    by (simp_all add: lacks_fields_build_key)
  show a: "record_key ri (total (stats (dedup_lines parse (take i ls))) + 1)
        = ''line|'' @ to_string (i + 1)"
    by (simp add: record_key_fallback ki ti)
  show b: "record_key rj (total (stats (dedup_lines parse (take j ls))) + 1)
        = ''line|'' @ to_string (j + 1)"
    by (simp add: record_key_fallback kj tj)
  have "''line|'' @ to_string (i + 1) \<noteq> ''line|'' @ to_string (j + 1)"
  proof
    assume "''line|'' @ to_string (i + 1) = ''line|'' @ to_string (j + 1)"
    then have "i + 1 = j + 1" by (rule fallback_key_inj)
    with h show False by simp
  qed
  then show "record_key ri (total (stats (dedup_lines parse (take i ls))) + 1)
        \<noteq> record_key rj (total (stats (dedup_lines parse (take j ls))) + 1)"
    by (simp only: a b) simp
next
  assume h: "length ls < 2 ^ 64 \<and> (\<forall>l\<in>set ls. \<forall>r. parse l = Inr r \<longrightarrow> lacks_fields r)"
  then have n: "\<forall>l\<in>set ls. \<forall>r. parse l = Inr r \<longrightarrow> build_key r = []"
    by (blast intro: lacks_fields_build_key)
  from h have l: "length ls < 2 ^ 64" by blast
  from fallback_stream_lines [OF n l]
  show "duplicates (stats (dedup_lines parse ls)) = 0"
    and "out (dedup_lines parse ls)
        = concat (map (\<lambda>l. l @ [CHR 0x0A]) (filter (\<lambda>l. l \<noteq> [] \<and> \<not> isl (parse l)) ls))"
    unfolding emitted_def by blast+
qed

theorem fallback_keys_distinct_witness:
  \<open>length [''{}'', ''{"n":1}'', [], ''{}''] < 2 ^ 64 \<and> (0::nat) < 1
   \<and> 1 < length [''{}'', ''{"n":1}'', [], ''{}'']
   \<and> lacks_fields (JObject []) \<and> lacks_fields (JObject [(''n'', JNumber 1)])
   \<and> sample_parse ''{}'' = Inr (JObject [])
   \<and> sample_parse ''{"n":1}'' = Inr (JObject [(''n'', JNumber 1)])
   \<and> record_key (JObject [])
        (total (stats (dedup_lines sample_parse (take 0 [''{}'', ''{"n":1}'', [], ''{}'']))) + 1)
       = ''line|1''
   \<and> record_key (JObject [(''n'', JNumber 1)])
        (total (stats (dedup_lines sample_parse (take 1 [''{}'', ''{"n":1}'', [], ''{}'']))) + 1)
       = ''line|2''
   \<and> duplicates (stats (dedup_lines sample_parse [''{}'', ''{"n":1}'', [], ''{}''])) = 0
   \<and> out (dedup_lines sample_parse [''{}'', ''{"n":1}'', [], ''{}''])
       = ''{}'' @ [CHR 0x0A] @ ''{"n":1}'' @ [CHR 0x0A] @ ''{}'' @ [CHR 0x0A]\<close>
proof -
  let ?ls = \<open>[''{}'', ''{"n":1}'', [], ''{}'']\<close>
  have len: "length ?ls < 2 ^ 64" by simp
  have f1: "lacks_fields (JObject [])" by (simp add: lacks_fields_def)
  have f2: "lacks_fields (JObject [(''n'', JNumber 1)])" by (simp add: lacks_fields_def)
  have p3: "sample_parse [] = Inl ''parse error''" by code_simp
  have all: "\<forall>l\<in>set ?ls. \<forall>r. sample_parse l = Inr r \<longrightarrow> lacks_fields r"
    using sample_empty_object sample_n_object p3 f1 f2 by auto
  have g: \<open>filter (\<lambda>l. l \<noteq> [] \<and> \<not> isl (sample_parse l)) ?ls = [''{}'', ''{"n":1}'', ''{}'']\<close>
    using sample_empty_object sample_n_object by simp
  have d1: "to_string (0 + 1) = ''1''" by code_simp
  have d2: "to_string (1 + 1) = ''2''" by code_simp
  note inst = fallback_keys_distinct
    [where ls = ?ls and i = 0 and j = 1 and ri = "JObject []"
      and rj = "JObject [(''n'', JNumber 1)]" and parse = sample_parse]
  from inst len f1 f2
  have k1: "record_key (JObject [])
        (total (stats (dedup_lines sample_parse (take 0 ?ls))) + 1) = ''line|'' @ to_string (0 + 1)"
    and k2: "record_key (JObject [(''n'', JNumber 1)])
        (total (stats (dedup_lines sample_parse (take 1 ?ls))) + 1) = ''line|'' @ to_string (1 + 1)"
    by simp_all
  from inst len all
  have d: "duplicates (stats (dedup_lines sample_parse ?ls)) = 0"
    and o: "out (dedup_lines sample_parse ?ls)
        = concat (map (\<lambda>l. l @ [CHR 0x0A])
            (filter (\<lambda>l. l \<noteq> [] \<and> \<not> isl (sample_parse l)) ?ls))"
    by blast+
  from o have o': \<open>out (dedup_lines sample_parse ?ls)
       = ''{}'' @ [CHR 0x0A] @ ''{"n":1}'' @ [CHR 0x0A] @ ''{}'' @ [CHR 0x0A]\<close>
    unfolding g by simp
  from k1 k2 have k1': "record_key (JObject [])
        (total (stats (dedup_lines sample_parse (take 0 ?ls))) + 1) = ''line|1''"
    and k2': "record_key (JObject [(''n'', JNumber 1)])
        (total (stats (dedup_lines sample_parse (take 1 ?ls))) + 1) = ''line|2''"
    unfolding d1 d2 by simp_all
  have "(0::nat) < 1" and "1 < length ?ls" by simp_all
  with len f1 f2 sample_empty_object sample_n_object k1' k2' d o' show ?thesis by blast
qed

end
